theory Spec2Isabelle
  imports Main "HOL-Library.Word" "HOL-Library.Signed_Division"
begin

unbundle bit_operations_syntax

section \<open>UTF-8 decoding as the backing store uses it\<close>

text \<open>
  The backing store of package \<open>buffer\<close> calls \<open>utf8.DecodeRune\<close> and
  \<open>utf8.RuneCount\<close> of Go's standard library. They are written out here the way the
  library computes them: a table on the first byte gives the sequence length and the
  accepted range of the second byte; an invalid or short encoding decodes to
  \<open>RuneError\<close> with width 1; an empty input to \<open>RuneError\<close> with width 0.
\<close>

type_synonym byte = "8 word"
type_synonym rune = int

definition RuneError :: rune where
  "RuneError = 0xFFFD"

text \<open>The table \<open>first\<close> of unicode/utf8: \<open>0xF0\<close> marks ASCII, \<open>0xF1\<close> an invalid
  first byte; otherwise the low three bits are the size and the high nibble indexes
  \<open>acceptRanges\<close>.\<close>

definition first :: "byte \<Rightarrow> byte" where
  "first p0 =
     (if p0 < 0x80 then 0xF0
      else if p0 < 0xC2 then 0xF1
      else if p0 < 0xE0 then 0x02
      else if p0 = 0xE0 then 0x13
      else if p0 < 0xED then 0x03
      else if p0 = 0xED then 0x23
      else if p0 < 0xF0 then 0x03
      else if p0 = 0xF0 then 0x34
      else if p0 < 0xF4 then 0x04
      else if p0 = 0xF4 then 0x44
      else 0xF1)"

definition acceptRanges :: "byte \<Rightarrow> byte \<times> byte" where
  "acceptRanges i =
     (if i = 1 then (0xA0, 0xBF)
      else if i = 2 then (0x80, 0x9F)
      else if i = 3 then (0x90, 0xBF)
      else if i = 4 then (0x80, 0x8F)
      else (0x80, 0xBF))"

definition rune_of :: "byte \<Rightarrow> rune" where
  "rune_of b = uint b"

definition DecodeRune :: "byte list \<Rightarrow> rune \<times> nat" where
  "DecodeRune p =
     (case p of
        [] \<Rightarrow> (RuneError, 0)
      | p0 # t0 \<Rightarrow>
          let x = first p0 in
          if x \<ge> 0xF0 then (if x = 0xF0 then rune_of p0 else RuneError, 1)
          else
            let sz = unat (x AND 7); (lo, hi) = acceptRanges (drop_bit 4 x) in
            if length p < sz then (RuneError, 1)
            else (case t0 of
               [] \<Rightarrow> (RuneError, 1)
             | b1 # t1 \<Rightarrow>
                 if b1 < lo \<or> hi < b1 then (RuneError, 1)
                 else if sz \<le> 2 then
                   (push_bit 6 (rune_of (p0 AND 0x1F)) OR rune_of (b1 AND 0x3F), 2)
                 else (case t1 of
                    [] \<Rightarrow> (RuneError, 1)
                  | b2 # t2 \<Rightarrow>
                      if b2 < 0x80 \<or> 0xBF < b2 then (RuneError, 1)
                      else if sz \<le> 3 then
                        (push_bit 12 (rune_of (p0 AND 0x0F)) OR push_bit 6 (rune_of (b1 AND 0x3F))
                           OR rune_of (b2 AND 0x3F), 3)
                      else (case t2 of
                         [] \<Rightarrow> (RuneError, 1)
                       | b3 # t3 \<Rightarrow>
                           if b3 < 0x80 \<or> 0xBF < b3 then (RuneError, 1)
                           else
                             (push_bit 18 (rune_of (p0 AND 0x07))
                                OR push_bit 12 (rune_of (b1 AND 0x3F))
                                OR push_bit 6 (rune_of (b2 AND 0x3F))
                                OR rune_of (b3 AND 0x3F), 4)))))"

lemma DecodeRune_size_pos: "p \<noteq> [] \<Longrightarrow> 1 \<le> snd (DecodeRune p)"
  by (auto simp: DecodeRune_def Let_def split: list.splits prod.splits)

lemma DecodeRune_size_le: "snd (DecodeRune p) \<le> length p"
  by (auto simp: DecodeRune_def Let_def split: list.splits prod.splits)

text \<open>\<open>utf8.RuneCount\<close>: the number of decoding steps over the slice, an erroneous
  or short encoding counting as one rune of width 1.\<close>

function RuneCount :: "byte list \<Rightarrow> nat" where
  "RuneCount [] = 0"
| "RuneCount (b # bs) = Suc (RuneCount (drop (snd (DecodeRune (b # bs))) (b # bs)))"
  by pat_completeness auto
termination
proof (relation "measure length")
  show "wf (measure length)" by simp
next
  fix b :: byte and bs :: "byte list"
  have "1 \<le> snd (DecodeRune (b # bs))" by (rule DecodeRune_size_pos) simp
  then show "(drop (snd (DecodeRune (b # bs))) (b # bs), b # bs) \<in> measure length"
    by simp
qed

section \<open>The backing store: \<open>textBuffer\<close>\<close>

text \<open>
  \<open>textBuffer\<close> of package \<open>buffer\<close>: the byte slice \<open>buf\<close> (its contents and its
  capacity) and the length in runes. The embedded rune-offset index is not read or
  written by the functions below and is left out. Go's \<open>int\<close> is 64 bits wide on the
  targets of the library; lengths of slices stay far below that, so sizes are \<open>nat\<close>
  and offsets \<open>int\<close>.
\<close>

datatype panic = SliceBoundsOutOfRange | IndexOutOfRange | NilDereference | DivideByZero

datatype io_error = EOF

record textBuffer =
  buf :: "byte list"
  buf_cap :: nat
  length_tb :: int

definition chunkSize :: nat where
  "chunkSize = 4096"

definition newTextBuffer :: textBuffer where
  "newTextBuffer = \<lparr>buf = [], buf_cap = 0, length_tb = 0\<rparr>"

text \<open>\<open>ReadRuneAt\<close>: end of input is the triple \<open>(0, 0, io.EOF)\<close>; otherwise the rune
  decoded at the offset, its width and a nil error. Slicing at a negative offset
  panics.\<close>

definition ReadRuneAt :: "textBuffer \<Rightarrow> int \<Rightarrow> panic + (rune \<times> nat \<times> io_error option)" where
  "ReadRuneAt tb byteOff =
     (if byteOff \<ge> int (length (buf tb)) then Inr (0, 0, Some EOF)
      else if byteOff < 0 then Inl SliceBoundsOutOfRange
      else let (c, s) = DecodeRune (drop (nat byteOff) (buf tb)) in Inr (c, s, None))"

definition set_tb :: "textBuffer \<Rightarrow> byte list \<Rightarrow> nat \<Rightarrow> int \<times> textBuffer" where
  "set_tb tb bs bs_cap =
     (let tb' = tb\<lparr>buf := bs, buf_cap := bs_cap, length_tb := int (RuneCount bs)\<rparr>
      in (length_tb tb', tb'))"

definition ensure :: "textBuffer \<Rightarrow> int \<Rightarrow> textBuffer" where
  "ensure tb n =
     (if int (buf_cap tb) - int (length (buf tb)) \<ge> n then tb
      else
        let needed = int (length (buf tb)) + n;
            newCap = ((needed + int chunkSize - 1) div int chunkSize) * int chunkSize
        in tb\<lparr>buf_cap := nat newCap\<rparr>)"

text \<open>Go's built-in \<open>append\<close> on a byte slice: the contents are extended; the
  capacity stays when there is room and grows to at least the new length otherwise.\<close>

definition go_append :: "byte list \<times> nat \<Rightarrow> byte list \<Rightarrow> byte list \<times> nat" where
  "go_append s bs = (fst s @ bs, max (snd s) (length (fst s) + length bs))"

definition append_tb :: "textBuffer \<Rightarrow> byte list \<Rightarrow> (int \<times> nat \<times> nat) \<times> textBuffer" where
  "append_tb tb0 bs =
     (let tb = ensure tb0 (int (length bs));
          byteOff = length (buf tb);
          runeOff = length_tb tb;
          (b', c') = go_append (buf tb, buf_cap tb) bs;
          runeLen = RuneCount bs
      in ((runeOff, byteOff, runeLen),
          tb\<lparr>buf := b', buf_cap := c', length_tb := length_tb tb + int runeLen\<rparr>))"

section \<open>The line wrapper of package \<open>editor\<close>\<close>

subsection \<open>Glyphs, fixed-point widths and lines\<close>

text \<open>
  \<open>fixed.Int26_6\<close> is a signed 32-bit integer counting 64ths; \<open>fixed.I\<close> shifts an
  \<open>int\<close> left by six bits and truncates it to 32 bits. Of \<open>text.Glyph\<close> (gioui) the
  fields that the wrapper reads or writes are kept; \<open>FlagClusterBreak\<close> is bit 3 of
  its \<open>Flags\<close>.
\<close>

type_synonym Int26_6 = "32 word"

definition fixed_I :: "int \<Rightarrow> Int26_6" where
  "fixed_I i = word_of_int (i * 64)"

text \<open>Go's \<open>/\<close> on \<open>int32\<close>: the quotient truncated towards zero, wrapped to 32
  bits. Go panics on a zero divisor; \<open>expandTabGlyph\<close> below tests for it before it
  divides.\<close>

definition div_Int26_6 :: "Int26_6 \<Rightarrow> Int26_6 \<Rightarrow> Int26_6" where
  "div_Int26_6 a b = word_of_int (sint a sdiv sint b)"

record Glyph =
  ID :: "64 word"
  Advance :: Int26_6
  Ascent :: Int26_6
  Descent :: Int26_6
  Offset :: "Int26_6 \<times> Int26_6"
  Runes :: "16 word"
  Flags :: "16 word"

definition FlagClusterBreak :: "16 word" where
  "FlagClusterBreak = push_bit 3 1"

text \<open>
  Modelled from the spec: the type \<open>line\<close> of package \<open>editor\<close> and its method
  \<open>append\<close> are not among the sources. The spec describes a visual line as ``a vector
  of glyphs plus a running x-advance''; the wrapper reads the fields \<open>glyphs\<close> and
  \<open>width\<close> and calls \<open>append\<close> with a slice of glyphs. \<open>append_line\<close> adds the
  glyphs at the end in their order and their advances to the width.
\<close>

record line =
  glyphs :: "Glyph list"
  width :: Int26_6

definition emptyLine :: line where
  "emptyLine = \<lparr>glyphs = [], width = 0\<rparr>"

definition append_line :: "line \<Rightarrow> Glyph list \<Rightarrow> line" where
  "append_line l gs = \<lparr>glyphs = glyphs l @ gs, width = foldl (\<lambda>a g. a + Advance g) (width l) gs\<rparr>"

subsection \<open>The breaker\<close>

text \<open>
  The two iterators of the segmenter (go-text/typesetting) are the lists of segments
  they have yet to deliver; a segment is its rune offset and its text. \<open>Next\<close> on an
  exhausted iterator keeps returning false.
\<close>

record segment =
  seg_Offset :: int
  seg_Text :: "rune list"

record breaker =
  wordSegmenter :: "segment list"
  graphemeSegmenter :: "segment list"
  runes :: int
  prevBreak :: int
  prevUnread :: bool

definition newBreaker :: "segment list \<times> segment list \<Rightarrow> rune list \<Rightarrow> breaker" where
  "newBreaker seg text =
     \<lparr>wordSegmenter = fst seg, graphemeSegmenter = snd seg, runes = int (length text),
      prevBreak = 0, prevUnread = False\<rparr>"

text \<open>The loop \<open>for it.Next() { ... }\<close> shared by both iterators: the first segment
  whose end lies beyond \<open>prevBreak\<close>, and what is left of the iterator.\<close>

fun scanBreak :: "segment list \<Rightarrow> int \<Rightarrow> int option \<times> segment list" where
  "scanBreak [] prev = (None, [])"
| "scanBreak (s # ss) prev =
     (let opt = seg_Offset s + int (length (seg_Text s))
      in if opt > prev then (Some opt, ss) else scanBreak ss prev)"

definition nextWordBreak :: "breaker \<Rightarrow> (int \<times> bool) \<times> breaker" where
  "nextWordBreak b =
     (if prevUnread b then ((prevBreak b, True), b\<lparr>prevUnread := False\<rparr>)
      else case scanBreak (wordSegmenter b) (prevBreak b) of
             (Some opt, rest) \<Rightarrow> ((opt, True), b\<lparr>wordSegmenter := rest, prevBreak := opt\<rparr>)
           | (None, rest) \<Rightarrow> ((0, False), b\<lparr>wordSegmenter := rest\<rparr>))"

definition nextGraphemeBreak :: "breaker \<Rightarrow> (int \<times> bool) \<times> breaker" where
  "nextGraphemeBreak b =
     (if prevUnread b then ((prevBreak b, True), b\<lparr>prevUnread := False\<rparr>)
      else case scanBreak (graphemeSegmenter b) (prevBreak b) of
             (Some opt, rest) \<Rightarrow> ((opt, True), b\<lparr>graphemeSegmenter := rest, prevBreak := opt\<rparr>)
           | (None, rest) \<Rightarrow> ((0, False), b\<lparr>graphemeSegmenter := rest\<rparr>))"

definition markPrevUnread :: "breaker \<Rightarrow> breaker" where
  "markPrevUnread b = b\<lparr>prevUnread := True\<rparr>"

subsection \<open>The glyph reader\<close>

text \<open>\<open>nextGlyph\<close> is the pull iterator over the shaped glyphs: the glyphs it has yet
  to deliver. \<open>next\<close> appends the glyph it fetched to the buffer and returns a pointer
  to its own local copy of it, not to the element of the buffer.\<close>

record glyphReader =
  nextGlyph :: "Glyph list"
  buf_g :: "Glyph list"
  overflow :: bool

definition next_g :: "glyphReader \<Rightarrow> Glyph option \<times> glyphReader" where
  "next_g b =
     (case nextGlyph b of
        [] \<Rightarrow> (None, b)
      | gl # rest \<Rightarrow> (Some gl, b\<lparr>nextGlyph := rest, buf_g := buf_g b @ [gl]\<rparr>))"

definition get_g :: "glyphReader \<Rightarrow> Glyph list" where
  "get_g b = buf_g b"

definition advance :: "glyphReader \<Rightarrow> Int26_6" where
  "advance b = foldl (\<lambda>width g. width + Advance g) (fixed_I 0) (buf_g b)"

definition reset :: "glyphReader \<Rightarrow> glyphReader" where
  "reset b = b\<lparr>buf_g := [], overflow := False\<rparr>"

subsection \<open>The wrapper\<close>

record lineWrapper =
  breaker :: breaker
  maxWidth :: int
  spaceGlyph :: "Glyph option"
  tabStopInterval :: Int26_6
  runeOff :: int
  currentLine :: line
  glyphBuf :: glyphReader

datatype wrapState = wrapNoFit | wrapWordOverflow | wrapLineOverflow | wrapEnd

definition setup_w ::
  "lineWrapper \<Rightarrow> segment list \<times> segment list \<Rightarrow> Glyph list \<Rightarrow> rune list \<Rightarrow> int \<Rightarrow> Int26_6
     \<Rightarrow> Glyph option \<Rightarrow> lineWrapper" where
  "setup_w w seg nextGl paragraph maxW tabStop spaceGl =
     w\<lparr>breaker := newBreaker seg paragraph, maxWidth := maxW, tabStopInterval := tabStop,
       spaceGlyph := spaceGl, currentLine := emptyLine,
       glyphBuf := reset ((glyphBuf w)\<lparr>nextGlyph := nextGl\<rparr>), runeOff := 0\<rparr>"

text \<open>\<open>expandTabGlyph\<close> writes through the pointer it is given; the model returns the
  glyph written. A zero interval panics in the division, a nil space glyph in the
  dereference.\<close>

definition expandTabGlyph :: "lineWrapper \<Rightarrow> Glyph \<Rightarrow> panic + Glyph" where
  "expandTabGlyph w gl =
     (if tabStopInterval w = 0 then Inl DivideByZero
      else
        let nextTabStop = (div_Int26_6 (width (currentLine w)) (tabStopInterval w) + 1)
                            * tabStopInterval w;
            adv = nextTabStop - width (currentLine w)
        in case spaceGlyph w of
             None \<Rightarrow> Inl NilDereference
           | Some sp \<Rightarrow>
               Inr (gl\<lparr>Advance := adv, Offset := (0, 0), ID := ID sp,
                       Ascent := Ascent sp, Descent := Descent sp\<rparr>))"

definition tab :: rune where
  "tab = 9"

text \<open>
  The body of the loop of \<open>readToNextBreak\<close> between \<open>next\<close> and the test of the
  buffer's advance. The glyph \<open>gl\<close> that \<open>next\<close> returned is a copy of the one
  appended to the buffer, so what \<open>expandTabGlyph\<close> writes to it does not reach the
  buffer: of the call only its panics are visible.
\<close>

definition clusterBreak :: "lineWrapper \<Rightarrow> Glyph \<Rightarrow> rune list \<Rightarrow> panic + lineWrapper" where
  "clusterBreak w1 gl paragraph =
     (if Flags gl AND FlagClusterBreak \<noteq> 0 then
        let w2 = w1\<lparr>runeOff := runeOff w1 + int (unat (Runes gl))\<rparr> in
        if runeOff w2 - 1 < 0 \<or> runeOff w2 - 1 \<ge> int (length paragraph)
        then Inl IndexOutOfRange
        else if paragraph ! nat (runeOff w2 - 1) = tab then
          (case expandTabGlyph w2 gl of
             Inl e \<Rightarrow> Inl e
           | Inr gl' \<Rightarrow> Inr w2)
        else Inr w2
      else Inr w1)"

text \<open>\<open>readToNextBreak\<close>: the returned flag and the wrapper after the call.\<close>

function readToNextBreak :: "lineWrapper \<Rightarrow> int \<Rightarrow> rune list \<Rightarrow> panic + (bool \<times> lineWrapper)" where
  "readToNextBreak w breakAtIdx paragraph =
     (if breakAtIdx > runeOff w then
        (case next_g (glyphBuf w) of
           (None, gb) \<Rightarrow> Inr (True, w)
         | (Some gl, gb) \<Rightarrow>
             (case clusterBreak (w\<lparr>glyphBuf := gb\<rparr>) gl paragraph of
                Inl e \<Rightarrow> Inl e
              | Inr w3 \<Rightarrow>
                  if fixed_I (maxWidth w3) <s advance (glyphBuf w3) then
                    Inr (False, w3\<lparr>glyphBuf := (glyphBuf w3)\<lparr>overflow := True\<rparr>\<rparr>)
                  else readToNextBreak w3 breakAtIdx paragraph))
      else Inr (True, w))"
  by pat_completeness auto

lemma clusterBreak_Inr:
  "clusterBreak w gl p = Inr w' \<Longrightarrow>
     glyphBuf w' = glyphBuf w \<and> breaker w' = breaker w \<and> currentLine w' = currentLine w
     \<and> maxWidth w' = maxWidth w \<and> spaceGlyph w' = spaceGlyph w
     \<and> tabStopInterval w' = tabStopInterval w"
  by (auto simp: clusterBreak_def Let_def split: if_splits sum.splits)

lemma next_g_Some:
  "next_g b = (Some gl, b') \<Longrightarrow>
     nextGlyph b = gl # nextGlyph b' \<and> buf_g b' = buf_g b @ [gl] \<and> overflow b' = overflow b"
  by (auto simp: next_g_def split: list.splits)

lemma next_g_None: "next_g b = (None, b') \<Longrightarrow> nextGlyph b = [] \<and> b' = b"
  by (auto simp: next_g_def split: list.splits)

termination readToNextBreak
proof (relation "measure (\<lambda>(w, b, p). length (nextGlyph (glyphBuf w)))")
  show "wf (measure (\<lambda>(w, b, p). length (nextGlyph (glyphBuf w))))" by simp
next
  fix w :: lineWrapper and breakAtIdx :: int and par :: "rune list"
    and x gl gb w3
  assume n: "(gl, gb) = next_g (glyphBuf w)" "gl = Some x"
    and c: "clusterBreak (w\<lparr>glyphBuf := gb\<rparr>) x par = Inr w3"
  from n have "nextGlyph (glyphBuf w) = x # nextGlyph gb"
    using next_g_Some [of "glyphBuf w" x gb] by simp
  moreover from clusterBreak_Inr [OF c] have "glyphBuf w3 = gb" by simp
  ultimately show "((w3, breakAtIdx, par), w, breakAtIdx, par)
      \<in> measure (\<lambda>(w, b, p). length (nextGlyph (glyphBuf w)))"
    by simp
qed

declare readToNextBreak.simps [simp del]

lemma readToNextBreak_mono:
  "readToNextBreak w b p = Inr (r, w') \<Longrightarrow>
     length (nextGlyph (glyphBuf w')) \<le> length (nextGlyph (glyphBuf w))
     \<and> (length (nextGlyph (glyphBuf w')) = length (nextGlyph (glyphBuf w)) \<longrightarrow>
          r \<and> glyphBuf w' = glyphBuf w)
     \<and> breaker w' = breaker w \<and> currentLine w' = currentLine w \<and> maxWidth w' = maxWidth w"
proof (induction w b p arbitrary: r w' rule: readToNextBreak.induct)
  case (1 w b p)
  note prem = "1.prems" [unfolded readToNextBreak.simps [of w b p]]
  show ?case
  proof (cases "b > runeOff w")
    case False
    with prem show ?thesis by simp
  next
    case True
    show ?thesis
    proof (cases "next_g (glyphBuf w)")
      case (Pair o1 gb)
      show ?thesis
      proof (cases o1)
        case None
        with Pair True prem show ?thesis by simp
      next
        case (Some gl)
        note ng = next_g_Some [OF Pair [unfolded Some]]
        show ?thesis
        proof (cases "clusterBreak (w\<lparr>glyphBuf := gb\<rparr>) gl p")
          case (Inl e)
          with Pair Some True prem show ?thesis by simp
        next
          case (Inr w3)
          note cb = clusterBreak_Inr [OF Inr]
          show ?thesis
          proof (cases "fixed_I (maxWidth w3) <s advance (glyphBuf w3)")
            case ov: True
            with Pair Some True Inr prem
            have "r = False" "w' = w3\<lparr>glyphBuf := (glyphBuf w3)\<lparr>overflow := True\<rparr>\<rparr>"
              by simp_all
            with cb ng show ?thesis by simp
          next
            case nov: False
            with Pair Some True Inr prem have rec: "readToNextBreak w3 b p = Inr (r, w')"
              by simp
            have ih: "length (nextGlyph (glyphBuf w')) \<le> length (nextGlyph (glyphBuf w3))
              \<and> breaker w' = breaker w3 \<and> currentLine w' = currentLine w3
              \<and> maxWidth w' = maxWidth w3"
              using "1.IH" [OF True Pair [symmetric] Some Inr nov rec] by simp
            with cb ng show ?thesis by simp
          qed
        qed
      qed
    qed
  qed
qed

subsection \<open>Wrapping one line\<close>

text \<open>The first loop of \<open>wrapNextLine\<close>: one word break per round. It yields the state
  it stopped in and the wrapper.\<close>

function wordLoop :: "lineWrapper \<Rightarrow> rune list \<Rightarrow> panic + (wrapState \<times> lineWrapper)" where
  "wordLoop w paragraph =
     (case nextWordBreak (breaker w) of
        ((breakAtIdx, ok), br) \<Rightarrow>
          if \<not> ok then Inr (wrapEnd, w\<lparr>breaker := br\<rparr>)
          else
            (case readToNextBreak (w\<lparr>breaker := br\<rparr>) breakAtIdx paragraph of
               Inl e \<Rightarrow> Inl e
             | Inr (wordOk, w2) \<Rightarrow>
                 if \<not> wordOk then
                   Inr (wrapWordOverflow, w2\<lparr>breaker := markPrevUnread (breaker w2)\<rparr>)
                 else if fixed_I (maxWidth w2) <s width (currentLine w2) + advance (glyphBuf w2)
                 then Inr (wrapLineOverflow, w2)
                 else
                   wordLoop
                     (w2\<lparr>currentLine := append_line (currentLine w2) (get_g (glyphBuf w2)),
                         glyphBuf := reset (glyphBuf w2)\<rparr>)
                     paragraph))"
  by pat_completeness auto

lemma scanBreak_Some: "scanBreak ss prev = (Some opt, rest) \<Longrightarrow> length rest < length ss \<and> prev < opt"
  by (induction ss) (auto simp: Let_def split: if_splits)

lemma scanBreak_shorter: "length (snd (scanBreak ss prev)) \<le> length ss"
  by (induction ss) (auto simp: Let_def)

definition breaks_left :: "segment list \<Rightarrow> breaker \<Rightarrow> nat" where
  "breaks_left ss b = length ss + (if prevUnread b then 1 else 0)"

lemma nextWordBreak_ok:
  "nextWordBreak b = ((i, True), b') \<Longrightarrow>
     breaks_left (wordSegmenter b') b' < breaks_left (wordSegmenter b) b"
  by (auto simp: nextWordBreak_def breaks_left_def split: if_splits prod.splits option.splits
      dest: scanBreak_Some)

lemma nextGraphemeBreak_ok:
  "nextGraphemeBreak b = ((i, True), b') \<Longrightarrow>
     breaks_left (graphemeSegmenter b') b' < breaks_left (graphemeSegmenter b) b"
  by (auto simp: nextGraphemeBreak_def breaks_left_def split: if_splits prod.splits option.splits
      dest: scanBreak_Some)

termination wordLoop
proof (relation "measure (\<lambda>(w, p). breaks_left (wordSegmenter (breaker w)) (breaker w))")
  show "wf (measure (\<lambda>(w, p). breaks_left (wordSegmenter (breaker w)) (breaker w)))" by simp
next
  fix w :: lineWrapper and par :: "rune list" and x br bi ok rr wordOk w2 y
  assume a: "(x, br) = nextWordBreak (breaker w)" "(bi, ok) = x" "\<not> \<not> ok"
    and r: "readToNextBreak (w\<lparr>breaker := br\<rparr>) bi par = Inr y" "(wordOk, w2) = y"
  from a have "nextWordBreak (breaker w) = ((bi, True), br)" by (cases x) auto
  from nextWordBreak_ok [OF this]
  have "breaks_left (wordSegmenter br) br < breaks_left (wordSegmenter (breaker w)) (breaker w)" .
  moreover from r have "breaker w2 = br"
    using readToNextBreak_mono [of "w\<lparr>breaker := br\<rparr>" bi par wordOk w2] by simp
  ultimately show "((w2\<lparr>currentLine := append_line (currentLine w2) (get_g (glyphBuf w2)),
            glyphBuf := reset (glyphBuf w2)\<rparr>, par), w, par)
      \<in> measure (\<lambda>(w, p). breaks_left (wordSegmenter (breaker w)) (breaker w))"
    by simp
qed

declare wordLoop.simps [simp del]

text \<open>The second loop: one grapheme break per round.\<close>

function graphemeLoop :: "lineWrapper \<Rightarrow> rune list \<Rightarrow> panic + lineWrapper" where
  "graphemeLoop w paragraph =
     (case nextGraphemeBreak (breaker w) of
        ((breakAtIdx, ok), br) \<Rightarrow>
          if \<not> ok then Inr (w\<lparr>breaker := br\<rparr>)
          else
            (case readToNextBreak (w\<lparr>breaker := br, glyphBuf := reset (glyphBuf w)\<rparr>)
                    breakAtIdx paragraph of
               Inl e \<Rightarrow> Inl e
             | Inr (done, w2) \<Rightarrow>
                 if done then Inr w2
                 else if fixed_I (maxWidth w2) <s width (currentLine w2) + advance (glyphBuf w2)
                 then Inr w2
                 else
                   graphemeLoop
                     (w2\<lparr>currentLine := append_line (currentLine w2) (buf_g (glyphBuf w2))\<rparr>)
                     paragraph))"
  by pat_completeness auto
termination
proof (relation "measure (\<lambda>(w, p). breaks_left (graphemeSegmenter (breaker w)) (breaker w))")
  show "wf (measure (\<lambda>(w, p). breaks_left (graphemeSegmenter (breaker w)) (breaker w)))"
    by simp
next
  fix w :: lineWrapper and par :: "rune list" and x br bi ok dn w2 y
  assume a: "(x, br) = nextGraphemeBreak (breaker w)" "(bi, ok) = x" "\<not> \<not> ok"
    and r: "readToNextBreak (w\<lparr>breaker := br, glyphBuf := reset (glyphBuf w)\<rparr>) bi par = Inr y"
      "(dn, w2) = y"
  from a have "nextGraphemeBreak (breaker w) = ((bi, True), br)" by (cases x) auto
  from nextGraphemeBreak_ok [OF this]
  have "breaks_left (graphemeSegmenter br) br
      < breaks_left (graphemeSegmenter (breaker w)) (breaker w)" .
  moreover from r have "breaker w2 = br"
    using readToNextBreak_mono
      [of "w\<lparr>breaker := br, glyphBuf := reset (glyphBuf w)\<rparr>" bi par dn w2] by simp
  ultimately show
    "((w2\<lparr>currentLine := append_line (currentLine w2) (buf_g (glyphBuf w2))\<rparr>, par), w, par)
      \<in> measure (\<lambda>(w, p). breaks_left (graphemeSegmenter (breaker w)) (breaker w))"
    by simp
qed

declare graphemeLoop.simps [simp del]

text \<open>The third loop: every glyph still in the iterator goes to the current line,
  together with what the buffer holds at that moment. (The calls of \<open>log.Println\<close>
  are left out.)\<close>

function drainLoop :: "lineWrapper \<Rightarrow> lineWrapper" where
  "drainLoop w =
     (case next_g (glyphBuf w) of
        (None, gb) \<Rightarrow> w
      | (Some gl, gb) \<Rightarrow>
          drainLoop (w\<lparr>currentLine := append_line (currentLine w) (buf_g gb),
                       glyphBuf := reset gb\<rparr>))"
  by pat_completeness auto
termination
proof (relation "measure (\<lambda>w. length (nextGlyph (glyphBuf w)))")
  show "wf (measure (\<lambda>w. length (nextGlyph (glyphBuf w))))" by simp
next
  fix w :: lineWrapper and x gb gl
  assume "(x, gb) = next_g (glyphBuf w)" "x = Some gl"
  then have "nextGlyph (glyphBuf w) = gl # nextGlyph gb"
    using next_g_Some [of "glyphBuf w" gl gb] by simp
  then show "(w\<lparr>currentLine := append_line (currentLine w) (buf_g gb), glyphBuf := reset gb\<rparr>, w)
      \<in> measure (\<lambda>w. length (nextGlyph (glyphBuf w)))"
    by (simp add: reset_def)
qed

declare drainLoop.simps [simp del]

text \<open>The head of \<open>wrapNextLine\<close>: glyphs left in the buffer by the previous call go
  to the current line unless the buffer is marked as overflowing.\<close>

definition takeRemaining :: "lineWrapper \<Rightarrow> lineWrapper" where
  "takeRemaining w =
     (if length (buf_g (glyphBuf w)) > 0 then
        (if \<not> overflow (glyphBuf w) then
           w\<lparr>currentLine := append_line (currentLine w) (buf_g (glyphBuf w)),
             glyphBuf := reset (glyphBuf w)\<rparr>
         else w)
      else w)"

text \<open>\<open>wrapNextLine\<close>: the line returned and the wrapper after the call.\<close>

definition wrapNextLine :: "lineWrapper \<Rightarrow> rune list \<Rightarrow> panic + (line \<times> lineWrapper)" where
  "wrapNextLine w paragraph =
     (case wordLoop (takeRemaining w) paragraph of
        Inl e \<Rightarrow> Inl e
      | Inr (state, w2) \<Rightarrow>
          if length (glyphs (currentLine w2)) > 0 then Inr (currentLine w2, w2)
          else (case graphemeLoop w2 paragraph of
                  Inl e \<Rightarrow> Inl e
                | Inr w3 \<Rightarrow> let w4 = drainLoop w3 in Inr (currentLine w4, w4)))"

subsection \<open>What one call of \<open>wrapNextLine\<close> consumes\<close>

text \<open>A call never puts glyphs back into the iterator. When it takes none from it,
  the buffer either stays or is emptied into the current line.\<close>

lemma wordLoop_mono:
  "wordLoop w p = Inr (st, w') \<Longrightarrow>
     length (nextGlyph (glyphBuf w')) \<le> length (nextGlyph (glyphBuf w))
     \<and> (length (nextGlyph (glyphBuf w')) = length (nextGlyph (glyphBuf w)) \<longrightarrow>
          (buf_g (glyphBuf w') = buf_g (glyphBuf w)
             \<and> glyphs (currentLine w') = glyphs (currentLine w))
          \<or> (buf_g (glyphBuf w') = []
             \<and> glyphs (currentLine w') = glyphs (currentLine w) @ buf_g (glyphBuf w)))"
proof (induction w p arbitrary: st w' rule: wordLoop.induct)
  case (1 w p)
  note prem = "1.prems" [unfolded wordLoop.simps [of w p]]
  obtain bi ok br where nb: "nextWordBreak (breaker w) = ((bi, ok), br)"
    by (metis surj_pair)
  show ?case
  proof (cases ok)
    case False
    with nb prem show ?thesis by auto
  next
    case True
    show ?thesis
    proof (cases "readToNextBreak (w\<lparr>breaker := br\<rparr>) bi p")
      case (Inl e)
      with nb True prem show ?thesis by simp
    next
      case (Inr y)
      obtain wordOk w2 where y: "y = (wordOk, w2)" by (cases y)
      note r = readToNextBreak_mono [OF Inr [unfolded y]]
      show ?thesis
      proof (cases wordOk)
        case False
        with nb True Inr y prem have "w' = w2\<lparr>breaker := markPrevUnread (breaker w2)\<rparr>"
          by simp
        with r False show ?thesis by auto
      next
        case wok: True
        show ?thesis
        proof (cases "fixed_I (maxWidth w2) <s width (currentLine w2) + advance (glyphBuf w2)")
          case lo: True
          with nb True Inr y wok prem have "w' = w2" by simp
          with r show ?thesis by auto
        next
          case nlo: False
          define w3 where "w3 = w2\<lparr>currentLine := append_line (currentLine w2) (get_g (glyphBuf w2)),
                                   glyphBuf := reset (glyphBuf w2)\<rparr>"
          from nb True Inr y wok nlo prem have rec: "wordLoop w3 p = Inr (st, w')"
            by (simp add: w3_def)
          have "wordOk = (\<not> \<not> wordOk)" by simp
          have ih: "length (nextGlyph (glyphBuf w')) \<le> length (nextGlyph (glyphBuf w3))
            \<and> (length (nextGlyph (glyphBuf w')) = length (nextGlyph (glyphBuf w3)) \<longrightarrow>
                 (buf_g (glyphBuf w') = buf_g (glyphBuf w3)
                    \<and> glyphs (currentLine w') = glyphs (currentLine w3))
                 \<or> (buf_g (glyphBuf w') = []
                    \<and> glyphs (currentLine w') = glyphs (currentLine w3) @ buf_g (glyphBuf w3)))"
            using "1.IH" [OF nb [symmetric] refl _ Inr y [symmetric] _ nlo rec [unfolded w3_def]]
              True wok
            by (simp add: w3_def)
          have w3: "nextGlyph (glyphBuf w3) = nextGlyph (glyphBuf w2)" "buf_g (glyphBuf w3) = []"
            "glyphs (currentLine w3) = glyphs (currentLine w2) @ buf_g (glyphBuf w2)"
            by (simp_all add: w3_def reset_def append_line_def get_g_def)
          from ih r w3 show ?thesis by auto
        qed
      qed
    qed
  qed
qed

lemma graphemeLoop_mono:
  "graphemeLoop w p = Inr w' \<Longrightarrow>
     length (nextGlyph (glyphBuf w')) \<le> length (nextGlyph (glyphBuf w))
     \<and> (length (nextGlyph (glyphBuf w')) = length (nextGlyph (glyphBuf w)) \<longrightarrow>
          glyphs (currentLine w') = glyphs (currentLine w)
          \<and> (buf_g (glyphBuf w') = buf_g (glyphBuf w) \<or> buf_g (glyphBuf w') = []))"
proof (induction w p arbitrary: w' rule: graphemeLoop.induct)
  case (1 w p)
  note prem = "1.prems" [unfolded graphemeLoop.simps [of w p]]
  obtain bi ok br where nb: "nextGraphemeBreak (breaker w) = ((bi, ok), br)"
    by (metis surj_pair)
  show ?case
  proof (cases ok)
    case False
    with nb prem show ?thesis by auto
  next
    case True
    define w1 where "w1 = w\<lparr>breaker := br, glyphBuf := reset (glyphBuf w)\<rparr>"
    have w1: "nextGlyph (glyphBuf w1) = nextGlyph (glyphBuf w)" "buf_g (glyphBuf w1) = []"
      "currentLine w1 = currentLine w"
      by (simp_all add: w1_def reset_def)
    show ?thesis
    proof (cases "readToNextBreak w1 bi p")
      case (Inl e)
      with nb True prem show ?thesis by (simp add: w1_def)
    next
      case (Inr y)
      obtain dn w2 where y: "y = (dn, w2)" by (cases y)
      note r = readToNextBreak_mono [OF Inr [unfolded y]]
      show ?thesis
      proof (cases dn)
        case True
        with nb \<open>ok\<close> Inr y prem have "w' = w2" by (simp add: w1_def)
        with r w1 show ?thesis by auto
      next
        case nd: False
        with r have less: "length (nextGlyph (glyphBuf w2)) < length (nextGlyph (glyphBuf w1))"
          by (cases "length (nextGlyph (glyphBuf w2)) = length (nextGlyph (glyphBuf w1))") auto
        show ?thesis
        proof (cases "fixed_I (maxWidth w2) <s width (currentLine w2) + advance (glyphBuf w2)")
          case True
          with nb \<open>ok\<close> Inr y nd prem have "w' = w2" by (simp add: w1_def)
          with less w1 show ?thesis by simp
        next
          case nlo: False
          define w3 where "w3 = w2\<lparr>currentLine := append_line (currentLine w2) (buf_g (glyphBuf w2))\<rparr>"
          from nb \<open>ok\<close> Inr y nd nlo prem have rec: "graphemeLoop w3 p = Inr w'"
            by (simp add: w1_def w3_def)
          have "length (nextGlyph (glyphBuf w')) \<le> length (nextGlyph (glyphBuf w3))"
            using "1.IH" [OF nb [symmetric] refl _ Inr [unfolded w1_def] y [symmetric] nd nlo
                rec [unfolded w3_def]] \<open>ok\<close>
            by (simp add: w3_def)
          with less w1 show ?thesis by (simp add: w3_def)
        qed
      qed
    qed
  qed
qed

lemma drainLoop_Nil: "nextGlyph (glyphBuf w) = [] \<Longrightarrow> drainLoop w = w"
  by (simp add: drainLoop.simps [of w] next_g_def)

lemma drainLoop_mono:
  "length (nextGlyph (glyphBuf (drainLoop w))) \<le> length (nextGlyph (glyphBuf w))"
proof (induction w rule: drainLoop.induct)
  case (1 w)
  show ?case
  proof (cases "nextGlyph (glyphBuf w)")
    case Nil
    then show ?thesis by (simp add: drainLoop_Nil)
  next
    case (Cons gl rest)
    define gb where "gb = (glyphBuf w)\<lparr>nextGlyph := rest, buf_g := buf_g (glyphBuf w) @ [gl]\<rparr>"
    have n: "next_g (glyphBuf w) = (Some gl, gb)"
      by (simp add: next_g_def Cons gb_def)
    have "length (nextGlyph (glyphBuf (drainLoop
        (w\<lparr>currentLine := append_line (currentLine w) (buf_g gb), glyphBuf := reset gb\<rparr>))))
      \<le> length rest"
      using "1.IH" [OF n [symmetric] refl] by (simp add: reset_def gb_def)
    then show ?thesis
      by (simp add: drainLoop.simps [of w] n Cons)
  qed
qed

lemma wrapNextLine_Inr:
  assumes "wrapNextLine w p = Inr (l, w')"
  obtains st w2 where "wordLoop (takeRemaining w) p = Inr (st, w2)"
      "glyphs (currentLine w2) \<noteq> []" "w' = w2" "l = currentLine w2"
  | st w2 w3 where "wordLoop (takeRemaining w) p = Inr (st, w2)"
      "glyphs (currentLine w2) = []" "graphemeLoop w2 p = Inr w3" "w' = drainLoop w3"
      "l = currentLine (drainLoop w3)"
proof (cases "wordLoop (takeRemaining w) p")
  case (Inl e)
  with assms show ?thesis by (simp add: wrapNextLine_def)
next
  case (Inr y)
  obtain st w2 where y: "y = (st, w2)" by (cases y)
  show ?thesis
  proof (cases "glyphs (currentLine w2) = []")
    case False
    with assms Inr y that(1) show ?thesis by (auto simp: wrapNextLine_def)
  next
    case True
    show ?thesis
    proof (cases "graphemeLoop w2 p")
      case (Inl e)
      with assms Inr y True show ?thesis by (simp add: wrapNextLine_def)
    next
      case gl: (Inr w3)
      with assms Inr y True that(2) show ?thesis by (auto simp: wrapNextLine_def Let_def)
    qed
  qed
qed

lemma takeRemaining_fields:
  "nextGlyph (glyphBuf (takeRemaining w)) = nextGlyph (glyphBuf w)"
  "(buf_g (glyphBuf (takeRemaining w)) = buf_g (glyphBuf w)
      \<and> glyphs (currentLine (takeRemaining w)) = glyphs (currentLine w))
    \<or> (buf_g (glyphBuf (takeRemaining w)) = []
      \<and> glyphs (currentLine (takeRemaining w)) = glyphs (currentLine w) @ buf_g (glyphBuf w))"
  by (simp_all add: takeRemaining_def reset_def append_line_def)

lemma drainLoop_same_length:
  assumes "length (nextGlyph (glyphBuf (drainLoop w))) = length (nextGlyph (glyphBuf w))"
  shows "drainLoop w = w"
proof (cases "nextGlyph (glyphBuf w)")
  case Nil
  then show ?thesis by (rule drainLoop_Nil)
next
  case (Cons g rest)
  define gb where "gb = (glyphBuf w)\<lparr>nextGlyph := rest, buf_g := buf_g (glyphBuf w) @ [g]\<rparr>"
  have n: "next_g (glyphBuf w) = (Some g, gb)"
    by (simp add: next_g_def Cons gb_def)
  have "length (nextGlyph (glyphBuf (drainLoop w))) \<le> length rest"
    using drainLoop_mono
      [of "w\<lparr>currentLine := append_line (currentLine w) (buf_g gb), glyphBuf := reset gb\<rparr>"]
    by (simp add: drainLoop.simps [of w] n reset_def gb_def)
  with assms Cons show ?thesis by simp
qed

lemma wrapNextLine_mono:
  assumes "wrapNextLine w p = Inr (l, w')"
  shows "l = currentLine w'"
    and "length (nextGlyph (glyphBuf w')) \<le> length (nextGlyph (glyphBuf w))"
    and "length (nextGlyph (glyphBuf w')) = length (nextGlyph (glyphBuf w)) \<Longrightarrow>
           glyphs (currentLine w) = [] \<Longrightarrow> glyphs l \<noteq> [] \<Longrightarrow>
           buf_g (glyphBuf w) \<noteq> [] \<and> buf_g (glyphBuf w') = []"
proof -
  note t = takeRemaining_fields [of w]
  show "l = currentLine w'"
    using assms by (rule wrapNextLine_Inr) simp_all
  show "length (nextGlyph (glyphBuf w')) \<le> length (nextGlyph (glyphBuf w))"
    using assms
  proof (rule wrapNextLine_Inr)
    fix st w2
    assume "wordLoop (takeRemaining w) p = Inr (st, w2)" "w' = w2"
    with wordLoop_mono [of "takeRemaining w" p st w2] t show ?thesis by simp
  next
    fix st w2 w3
    assume "wordLoop (takeRemaining w) p = Inr (st, w2)" "graphemeLoop w2 p = Inr w3"
      "w' = drainLoop w3"
    with wordLoop_mono [of "takeRemaining w" p st w2] graphemeLoop_mono [of w2 p w3]
      drainLoop_mono [of w3] t
    show ?thesis by simp
  qed
  show "buf_g (glyphBuf w) \<noteq> [] \<and> buf_g (glyphBuf w') = []"
    if eq: "length (nextGlyph (glyphBuf w')) = length (nextGlyph (glyphBuf w))"
      and cl: "glyphs (currentLine w) = []" and ne: "glyphs l \<noteq> []"
    using assms
  proof (rule wrapNextLine_Inr)
    fix st w2
    assume "wordLoop (takeRemaining w) p = Inr (st, w2)" "w' = w2" "l = currentLine w2"
    with wordLoop_mono [of "takeRemaining w" p st w2] t eq cl ne show ?thesis by auto
  next
    fix st w2 w3
    assume a: "wordLoop (takeRemaining w) p = Inr (st, w2)" "graphemeLoop w2 p = Inr w3"
      "w' = drainLoop w3" "l = currentLine (drainLoop w3)" "glyphs (currentLine w2) = []"
    note m2 = wordLoop_mono [OF a(1)] and m3 = graphemeLoop_mono [OF a(2)]
    from m3 drainLoop_mono [of w3] m2 t a(3) eq
    have e3: "length (nextGlyph (glyphBuf w3)) = length (nextGlyph (glyphBuf w2))"
      and e4: "length (nextGlyph (glyphBuf (drainLoop w3))) = length (nextGlyph (glyphBuf w3))"
      by simp_all
    from e4 have "drainLoop w3 = w3" by (rule drainLoop_same_length)
    with a(4,5) m3 e3 ne show ?thesis by simp
  qed
qed

subsection \<open>Wrapping a paragraph\<close>

definition glyphs_left :: "lineWrapper \<Rightarrow> nat" where
  "glyphs_left w =
     2 * length (nextGlyph (glyphBuf w)) + (if buf_g (glyphBuf w) \<noteq> [] then 1 else 0)
       + (if glyphs (currentLine w) \<noteq> [] then 2 else 0)"

lemma wrapNextLine_decreases:
  assumes "wrapNextLine w p = Inr (l, w')" and "\<not> length (glyphs l) = 0"
  shows "glyphs_left (w'\<lparr>currentLine := emptyLine\<rparr>) < glyphs_left w"
proof (cases "length (nextGlyph (glyphBuf w')) = length (nextGlyph (glyphBuf w))")
  case False
  with wrapNextLine_mono(2) [OF assms(1)]
  have "length (nextGlyph (glyphBuf w')) < length (nextGlyph (glyphBuf w))" by simp
  then show ?thesis by (simp add: glyphs_left_def emptyLine_def)
next
  case True
  show ?thesis
  proof (cases "glyphs (currentLine w) = []")
    case False
    with True show ?thesis by (simp add: glyphs_left_def emptyLine_def)
  next
    case cl: True
    from wrapNextLine_mono(3) [OF assms(1) True cl] assms(2)
    have "buf_g (glyphBuf w) \<noteq> [] \<and> buf_g (glyphBuf w') = []" by simp
    with True show ?thesis by (simp add: glyphs_left_def emptyLine_def)
  qed
qed

text \<open>The loop of \<open>WrapParagraph\<close>: a line without glyphs ends it and is not kept.\<close>

function wrapLoop :: "lineWrapper \<Rightarrow> rune list \<Rightarrow> line list \<Rightarrow> panic + line list" where
  "wrapLoop w paragraph lines =
     (case wrapNextLine w paragraph of
        Inl e \<Rightarrow> Inl e
      | Inr (l, w') \<Rightarrow>
          if length (glyphs l) = 0 then Inr lines
          else wrapLoop (w'\<lparr>currentLine := emptyLine\<rparr>) paragraph (lines @ [l]))"
  by pat_completeness auto
termination
proof (relation "measure (\<lambda>(w, p, ls). glyphs_left w)")
  show "wf (measure (\<lambda>(w, p, ls). glyphs_left w))" by simp
next
  fix w :: lineWrapper and par :: "rune list" and lines :: "line list" and y l w'
  assume "wrapNextLine w par = Inr y" "(l, w') = y" "length (glyphs l) \<noteq> 0"
  then have "glyphs_left (w'\<lparr>currentLine := emptyLine\<rparr>) < glyphs_left w"
    using wrapNextLine_decreases [of w par l w'] by simp
  then show "((w'\<lparr>currentLine := emptyLine\<rparr>, par, lines @ [l]), w, par, lines)
      \<in> measure (\<lambda>(w, p, ls). glyphs_left w)"
    by simp
qed

declare wrapLoop.simps [simp del]

text \<open>\<open>WrapParagraph\<close>. The segmenter's two iterators over the paragraph and the
  glyphs of the iterator \<open>glyphsIter\<close> are given as lists.\<close>

definition WrapParagraph ::
  "lineWrapper \<Rightarrow> segment list \<times> segment list \<Rightarrow> Glyph list \<Rightarrow> rune list \<Rightarrow> int \<Rightarrow> Int26_6
     \<Rightarrow> Glyph option \<Rightarrow> panic + line list" where
  "WrapParagraph w seg glyphsIter paragraph maxW tabStop spaceGl =
     wrapLoop (setup_w w seg glyphsIter paragraph maxW tabStop spaceGl) paragraph []"

section \<open>The piece table\<close>

subsection \<open>Markers\<close>

text \<open>
  Modelled from the spec: the marker service of package \<open>buffer\<close> (\<open>Marker\<close>,
  \<open>CreateMarker\<close> and the relocation of markers on a swap) is not among the sources;
  only its tests are. A marker is a rune offset, a bias and a liveness flag. The update
  rule for a swap that replaces the runes \<open>[s, e)\<close> by \<open>n\<close> runes: an offset before
  \<open>s\<close> stays; an offset beyond \<open>e\<close> moves by \<open>n - (e - s)\<close>; an offset from \<open>s\<close> to
  \<open>e\<close> collapses to \<open>s\<close> and then, if the edit inserts, moves by \<open>n\<close> exactly for the
  forward bias.
\<close>

datatype MarkerBias = BiasBackward | BiasForward

record Marker =
  offset_m :: int
  bias :: MarkerBias
  alive :: bool

definition relocate :: "int \<Rightarrow> int \<Rightarrow> int \<Rightarrow> Marker \<Rightarrow> Marker" where
  "relocate s e n m =
     (if offset_m m < s then m
      else if offset_m m > e then m\<lparr>offset_m := offset_m m + (n - (e - s))\<rparr>
      else
        let m1 = m\<lparr>offset_m := s\<rparr> in
        if n > 0 \<and> offset_m m1 = s \<and> bias m1 = BiasForward
        then m1\<lparr>offset_m := offset_m m1 + n\<rparr> else m1)"

definition relocate_all :: "int \<Rightarrow> int \<Rightarrow> int \<Rightarrow> Marker list \<Rightarrow> Marker list" where
  "relocate_all s e n ms = map (\<lambda>m. if alive m then relocate s e n m else m) ms"

subsection \<open>Stores, pieces and swaps\<close>

text \<open>
  Modelled from the spec: \<open>PieceTable\<close>, its piece list, piece ranges and undo stacks
  are not among the sources; only their tests are. A piece cites a backing store, a
  byte range and a rune count; the document is the concatenation of the cited slices
  over the list of pieces (the two sentinels of the linked list are the ends of the
  list). A piece range is a position in the list and the pieces from there on; the
  boundary range is the one without pieces. A swap record holds the old and the new
  range, its batch and, for the markers, the rune range and rune count of the edit.
\<close>

datatype source = Original | Modify

record piece =
  source_p :: source
  byte_offset :: nat
  byte_length :: nat
  rune_length :: nat

record swap_record =
  pos :: nat
  old_range :: "piece list"
  new_range :: "piece list"
  batch_id :: nat
  edit_start :: int
  edit_end :: int
  edit_runes :: int

record PieceTable =
  original :: "byte list"
  modify :: "byte list"
  pieces :: "piece list"
  undoStack :: "swap_record list"
  redoStack :: "swap_record list"
  seqLength :: nat
  seqBytes :: nat
  currentBatch :: nat
  batchDepth :: nat
  lastAppend :: bool
  markers :: "Marker list"

definition store :: "PieceTable \<Rightarrow> source \<Rightarrow> byte list" where
  "store pt src = (case src of Original \<Rightarrow> original pt | Modify \<Rightarrow> modify pt)"

definition piece_bytes :: "PieceTable \<Rightarrow> piece \<Rightarrow> byte list" where
  "piece_bytes pt p = take (byte_length p) (drop (byte_offset p) (store pt (source_p p)))"

definition content :: "PieceTable \<Rightarrow> byte list" where
  "content pt = concat (map (piece_bytes pt) (pieces pt))"

definition NewPieceTable :: "byte list \<Rightarrow> PieceTable" where
  "NewPieceTable init =
     \<lparr>original = init, modify = [],
      pieces = (if init = [] then []
                else [\<lparr>source_p = Original, byte_offset = 0, byte_length = length init,
                       rune_length = RuneCount init\<rparr>]),
      undoStack = [], redoStack = [],
      seqLength = RuneCount init, seqBytes = length init,
      currentBatch = 0, batchDepth = 0, lastAppend = False, markers = []\<rparr>"

text \<open>The number of bytes that the first \<open>k\<close> runes of a slice take.\<close>

fun rune_bytes :: "byte list \<Rightarrow> nat \<Rightarrow> nat" where
  "rune_bytes bs 0 = 0"
| "rune_bytes bs (Suc k) =
     (case bs of [] \<Rightarrow> 0
      | _ \<Rightarrow> snd (DecodeRune bs) + rune_bytes (drop (snd (DecodeRune bs)) bs) k)"

text \<open>\<open>split\<close>: two pieces on the same store with adjacent byte ranges whose rune
  counts add up to the rune count of the piece.\<close>

definition split_piece :: "PieceTable \<Rightarrow> piece \<Rightarrow> nat \<Rightarrow> piece \<times> piece" where
  "split_piece pt p k =
     (let k' = min k (rune_length p);
          b = min (rune_bytes (piece_bytes pt p) k') (byte_length p)
      in (p\<lparr>byte_length := b, rune_length := k'\<rparr>,
          p\<lparr>byte_offset := byte_offset p + b, byte_length := byte_length p - b,
            rune_length := rune_length p - k'\<rparr>))"

text \<open>\<open>find_piece_at\<close>: the pieces that end at or before the rune index, the pieces
  from there on, and the rune offset inside the first of these. A position on a piece
  boundary belongs to the following piece.\<close>

fun find_piece_at :: "piece list \<Rightarrow> nat \<Rightarrow> piece list \<times> piece list \<times> nat" where
  "find_piece_at [] r = ([], [], 0)"
| "find_piece_at (p # ps) r =
     (if rune_length p \<le> r then
        (case find_piece_at ps (r - rune_length p) of
           (pre, rest, off) \<Rightarrow> (p # pre, rest, off))
      else ([], p # ps, r))"

text \<open>The pieces that begin before the rune index \<open>e\<close> (counted from the start of the
  list), the pieces after them, and the rune offset of \<open>e\<close> inside the last of the
  former.\<close>

fun pieces_until :: "piece list \<Rightarrow> nat \<Rightarrow> piece list \<times> piece list \<times> nat" where
  "pieces_until [] e = ([], [], 0)"
| "pieces_until (p # ps) e =
     (if e = 0 then ([], p # ps, 0)
      else if e \<le> rune_length p then ([p], ps, e)
      else (case pieces_until ps (e - rune_length p) of
              (mid, post, off) \<Rightarrow> (p # mid, post, off)))"

text \<open>\<open>isolate\<close>: the position and the pieces of the smallest range that covers the
  runes \<open>[s, e)\<close>, with what is left of its first piece before \<open>s\<close> and of its last
  piece after \<open>e\<close>. For \<open>s = e\<close> on a piece boundary the range is the boundary range.\<close>

definition isolate :: "PieceTable \<Rightarrow> nat \<Rightarrow> nat \<Rightarrow> nat \<times> piece list \<times> piece list \<times> piece list" where
  "isolate pt s e =
     (case find_piece_at (pieces pt) s of
        (pre, rest, off) \<Rightarrow>
          (case pieces_until rest (off + (e - s)) of
             (mid, post, eoff) \<Rightarrow>
               (length pre, mid,
                (if mid \<noteq> [] \<and> 0 < off then [fst (split_piece pt (hd mid) off)] else []),
                (if mid \<noteq> [] \<and> eoff < rune_length (last mid)
                 then [snd (split_piece pt (last mid) eoff)] else []))))"

text \<open>\<open>splice_pieces\<close>: the range \<open>old\<close> at position \<open>k\<close> is taken out of the list and
  \<open>new\<close> is put in its place.\<close>

definition splice_pieces :: "nat \<Rightarrow> piece list \<Rightarrow> piece list \<Rightarrow> piece list \<Rightarrow> piece list" where
  "splice_pieces k old new ps = take k ps @ new @ drop (k + length old) ps"

subsection \<open>The facade\<close>

text \<open>
  Modelled from the spec: \<open>Replace\<close>, \<open>Insert\<close>, \<open>Erase\<close>, \<open>Undo\<close>, \<open>Redo\<close>,
  \<open>GroupOp\<close>, \<open>UnGroupOp\<close> and \<open>CreateMarker\<close> of \<open>PieceTable\<close>, which are not among
  the sources. \<open>Replace\<close> clamps the range to the document, appends the text to the
  \<open>modify\<close> store, builds the new range (the rest of the first old piece, a piece for
  the text, the rest of the last old piece), swaps it in, pushes the swap on the undo
  stack, empties the redo stack, relocates the markers and updates the length
  counters. An edit that deletes nothing and inserts nothing changes nothing. The
  spec's merge of an append into the rightmost piece extends that piece and records
  the pair of the piece before and after; the spec does not fix when a text qualifies
  (the tests merge single runes only), so that test is the parameter \<open>mergeable\<close>.
\<close>

definition sum_bytes :: "piece list \<Rightarrow> nat" where
  "sum_bytes ps = sum_list (map byte_length ps)"

definition sum_runes :: "piece list \<Rightarrow> nat" where
  "sum_runes ps = sum_list (map rune_length ps)"

definition Replace ::
  "(byte list \<Rightarrow> bool) \<Rightarrow> PieceTable \<Rightarrow> int \<Rightarrow> int \<Rightarrow> byte list \<Rightarrow> bool \<times> PieceTable" where
  "Replace mergeable pt startOff endOff text =
     (let len = seqLength pt;
          s = min (nat startOff) len;
          e = max s (min (nat endOff) len);
          rc = RuneCount text
      in if s = e \<and> text = [] then (False, pt)
         else
           let bo = length (modify pt);
               pt1 = pt\<lparr>modify := modify pt @ text\<rparr>;
               newPiece = (if text = [] then []
                           else [\<lparr>source_p = Modify, byte_offset = bo,
                                  byte_length = length text, rune_length = rc\<rparr>]);
               merge = (s = len \<and> e = s \<and> text \<noteq> [] \<and> lastAppend pt \<and> pieces pt \<noteq> []
                        \<and> source_p (last (pieces pt)) = Modify
                        \<and> byte_offset (last (pieces pt)) + byte_length (last (pieces pt)) = bo
                        \<and> mergeable text);
               (k, old, new) =
                 (if merge then
                    (length (pieces pt) - 1, [last (pieces pt)],
                     [(last (pieces pt))\<lparr>byte_length := byte_length (last (pieces pt)) + length text,
                                          rune_length := rune_length (last (pieces pt)) + rc\<rparr>])
                  else case isolate pt1 s e of
                         (k, mid, left, right) \<Rightarrow> (k, mid, left @ newPiece @ right));
               batch = (if batchDepth pt = 0 then currentBatch pt + 1 else currentBatch pt);
               r = \<lparr>pos = k, old_range = old, new_range = new, batch_id = batch,
                    edit_start = int s, edit_end = int e, edit_runes = int rc\<rparr>
           in (True,
               pt1\<lparr>pieces := splice_pieces k old new (pieces pt),
                   undoStack := r # undoStack pt, redoStack := [],
                   seqLength := len - (e - s) + rc,
                   seqBytes := seqBytes pt + sum_bytes new - sum_bytes old,
                   currentBatch := batch,
                   lastAppend := (s = e \<and> s = len \<and> text \<noteq> []),
                   markers := relocate_all (int s) (int e) (int rc) (markers pt)\<rparr>))"

definition Insert :: "(byte list \<Rightarrow> bool) \<Rightarrow> PieceTable \<Rightarrow> int \<Rightarrow> byte list \<Rightarrow> bool \<times> PieceTable" where
  "Insert mergeable pt runeIndex text = Replace mergeable pt runeIndex runeIndex text"

definition Erase :: "(byte list \<Rightarrow> bool) \<Rightarrow> PieceTable \<Rightarrow> int \<Rightarrow> int \<Rightarrow> bool \<times> PieceTable" where
  "Erase mergeable pt startOff endOff = Replace mergeable pt startOff endOff []"

text \<open>The inverse of a swap record, and the application of \<open>swap(new, old)\<close> of a
  record to the table, with the inverse relocation of the markers.\<close>

definition inverse_swap :: "swap_record \<Rightarrow> swap_record" where
  "inverse_swap r =
     r\<lparr>old_range := new_range r, new_range := old_range r,
       edit_end := edit_start r + edit_runes r, edit_runes := edit_end r - edit_start r\<rparr>"

definition revert :: "PieceTable \<Rightarrow> swap_record \<Rightarrow> PieceTable" where
  "revert pt r =
     pt\<lparr>pieces := splice_pieces (pos r) (new_range r) (old_range r) (pieces pt),
        seqLength := seqLength pt + sum_runes (old_range r) - sum_runes (new_range r),
        seqBytes := seqBytes pt + sum_bytes (old_range r) - sum_bytes (new_range r),
        markers := relocate_all (edit_start r) (edit_start r + edit_runes r)
                     (edit_end r - edit_start r) (markers pt)\<rparr>"

definition top_batch :: "swap_record list \<Rightarrow> swap_record list" where
  "top_batch st = (case st of [] \<Rightarrow> [] | r # _ \<Rightarrow> takeWhile (\<lambda>x. batch_id x = batch_id r) st)"

definition below_batch :: "swap_record list \<Rightarrow> swap_record list" where
  "below_batch st = (case st of [] \<Rightarrow> [] | r # _ \<Rightarrow> dropWhile (\<lambda>x. batch_id x = batch_id r) st)"

definition Undo :: "PieceTable \<Rightarrow> bool \<times> PieceTable" where
  "Undo pt =
     (if undoStack pt = [] then (False, pt)
      else
        let batch = top_batch (undoStack pt); pt' = foldl revert pt batch
        in (True, pt'\<lparr>undoStack := below_batch (undoStack pt),
                      redoStack := rev (map inverse_swap batch) @ redoStack pt,
                      lastAppend := False\<rparr>))"

definition Redo :: "PieceTable \<Rightarrow> bool \<times> PieceTable" where
  "Redo pt =
     (if redoStack pt = [] then (False, pt)
      else
        let batch = top_batch (redoStack pt); pt' = foldl revert pt batch
        in (True, pt'\<lparr>redoStack := below_batch (redoStack pt),
                      undoStack := rev (map inverse_swap batch) @ undoStack pt,
                      lastAppend := False\<rparr>))"

definition GroupOp :: "PieceTable \<Rightarrow> PieceTable" where
  "GroupOp pt =
     pt\<lparr>currentBatch := (if batchDepth pt = 0 then currentBatch pt + 1 else currentBatch pt),
        batchDepth := batchDepth pt + 1\<rparr>"

definition UnGroupOp :: "PieceTable \<Rightarrow> PieceTable" where
  "UnGroupOp pt =
     (if batchDepth pt = 0 then pt
      else pt\<lparr>currentBatch := (if batchDepth pt = 1 then currentBatch pt + 1 else currentBatch pt),
              batchDepth := batchDepth pt - 1\<rparr>)"

definition CreateMarker :: "PieceTable \<Rightarrow> int \<Rightarrow> MarkerBias \<Rightarrow> nat \<times> PieceTable" where
  "CreateMarker pt at b =
     (length (markers pt),
      pt\<lparr>markers := markers pt @ [\<lparr>offset_m = at, bias = b, alive = True\<rparr>]\<rparr>)"

text \<open>The number of batches on a stack: runs of records with the same batch id.\<close>

definition depth :: "swap_record list \<Rightarrow> nat" where
  "depth st = length (remdups_adj (map batch_id st))"

text \<open>Sequences of edits.\<close>

datatype edit = InsertOp int "byte list" | EraseOp int int | ReplaceOp int int "byte list"

fun apply_edit :: "(byte list \<Rightarrow> bool) \<Rightarrow> PieceTable \<Rightarrow> edit \<Rightarrow> PieceTable" where
  "apply_edit mg pt (InsertOp at text) = snd (Insert mg pt at text)"
| "apply_edit mg pt (EraseOp s e) = snd (Erase mg pt s e)"
| "apply_edit mg pt (ReplaceOp s e text) = snd (Replace mg pt s e text)"

definition run_edits :: "(byte list \<Rightarrow> bool) \<Rightarrow> edit list \<Rightarrow> PieceTable \<Rightarrow> PieceTable" where
  "run_edits mg ops pt = foldl (apply_edit mg) pt ops"

definition undo :: "PieceTable \<Rightarrow> PieceTable" where
  "undo pt = snd (Undo pt)"

definition redo :: "PieceTable \<Rightarrow> PieceTable" where
  "redo pt = snd (Redo pt)"

section \<open>Inputs and auxiliary notions\<close>

subsection \<open>Inputs of the line wrapper\<close>

text \<open>The zero value of \<open>lineWrapper\<close>; a shaped glyph for one rune that ends its
  cluster; the segments of the grapheme iterator over a text in which every rune is a
  grapheme cluster of its own (as for ASCII letters), counted from an offset.\<close>

definition zeroWrapper :: lineWrapper where
  "zeroWrapper =
     \<lparr>breaker = \<lparr>wordSegmenter = [], graphemeSegmenter = [], runes = 0, prevBreak = 0,
                  prevUnread = False\<rparr>,
      maxWidth = 0, spaceGlyph = None, tabStopInterval = 0, runeOff = 0,
      currentLine = emptyLine,
      glyphBuf = \<lparr>nextGlyph = [], buf_g = [], overflow = False\<rparr>\<rparr>"

definition runeGlyph :: "64 word \<Rightarrow> Int26_6 \<Rightarrow> Glyph" where
  "runeGlyph i a =
     \<lparr>ID = i, Advance = a, Ascent = 768, Descent = 256, Offset = (0, 0), Runes = 1,
      Flags = FlagClusterBreak\<rparr>"

fun graphemes :: "int \<Rightarrow> rune list \<Rightarrow> segment list" where
  "graphemes off [] = []"
| "graphemes off (r # rs) = \<lparr>seg_Offset = off, seg_Text = [r]\<rparr> # graphemes (off + 1) rs"

text \<open>Shaped glyphs for \<open>n\<close> runes, each 10 pixels (640 units) wide, and two
  paragraphs with the segments that the line and grapheme iterators deliver for them:
  \<open>hi abcdef\<close> (line breaks after \<open>hi \<close> and at the end) and \<open>abcdef\<close>.\<close>

definition shaped :: "nat \<Rightarrow> Glyph list" where
  "shaped n = map (\<lambda>i. runeGlyph (of_nat i) 640) [1..<Suc n]"

definition par_hi_abcdef :: "rune list" where
  "par_hi_abcdef = [104, 105, 32, 97, 98, 99, 100, 101, 102]"

definition seg_hi_abcdef :: "segment list \<times> segment list" where
  "seg_hi_abcdef =
     ([\<lparr>seg_Offset = 0, seg_Text = [104, 105, 32]\<rparr>,
       \<lparr>seg_Offset = 3, seg_Text = [97, 98, 99, 100, 101, 102]\<rparr>],
      graphemes 0 par_hi_abcdef)"

definition par_abcdef :: "rune list" where
  "par_abcdef = [97, 98, 99, 100, 101, 102]"

definition seg_abcdef :: "segment list \<times> segment list" where
  "seg_abcdef = ([\<lparr>seg_Offset = 0, seg_Text = par_abcdef\<rparr>], graphemes 0 par_abcdef)"

text \<open>The paragraph of a tab and \<open>X\<close>: a line break opportunity follows the
  tab.\<close>

definition seg_tab_X :: "segment list \<times> segment list" where
  "seg_tab_X =
     ([\<lparr>seg_Offset = 0, seg_Text = [9]\<rparr>, \<lparr>seg_Offset = 1, seg_Text = [88]\<rparr>],
      graphemes 0 [9, 88])"

subsection \<open>Calls of the breaker\<close>

text \<open>A call of either iterator, and the break offsets that a sequence of calls
  returns (the calls that report no break contribute nothing).\<close>

datatype breakCall = WordBreak | GraphemeBreak

definition callBreak :: "breakCall \<Rightarrow> breaker \<Rightarrow> (int \<times> bool) \<times> breaker" where
  "callBreak c b = (case c of WordBreak \<Rightarrow> nextWordBreak b | GraphemeBreak \<Rightarrow> nextGraphemeBreak b)"

fun callBreaks :: "breakCall list \<Rightarrow> breaker \<Rightarrow> int list" where
  "callBreaks [] b = []"
| "callBreaks (c # cs) b =
     (case callBreak c b of
        ((i, ok), b') \<Rightarrow> (if ok then [i] else []) @ callBreaks cs b')"

text \<open>The breaker over \<open>ab cd\<close>: word breaks at 3 and 5; the word break 3, pushed
  back, is what the grapheme iterator returns next.\<close>

definition breaker_ab_cd :: breaker where
  "breaker_ab_cd =
     newBreaker
       ([\<lparr>seg_Offset = 0, seg_Text = [97, 98, 32]\<rparr>, \<lparr>seg_Offset = 3, seg_Text = [99, 100]\<rparr>],
        graphemes 0 [97, 98, 32, 99, 100])
       [97, 98, 32, 99, 100]"

subsection \<open>Inputs of the tests of the piece table\<close>

text \<open>Strings as bytes, the merge of single runes, a list of calls of \<open>Replace\<close>, and
  the set-ups of \<open>TestUndo\<close>, \<open>TestMarkerOnInsert\<close> and \<open>TestMarkerOnErase\<close>.\<close>

definition bytes :: "string \<Rightarrow> byte list" where
  "bytes s = map (\<lambda>c. of_nat (of_char c)) s"

definition single_rune :: "byte list \<Rightarrow> bool" where
  "single_rune t = (RuneCount t = 1)"

definition edits :: "PieceTable \<Rightarrow> (int \<times> int \<times> string) list \<Rightarrow> PieceTable" where
  "edits pt es = foldl (\<lambda>p (s, e, t). snd (Replace single_rune p s e (bytes t))) pt es"

definition hello_world :: PieceTable where
  "hello_world = edits (NewPieceTable []) [(0, 0, ''Hello, ''), (7, 7, ''world'')]"

definition marker_after_insert :: "MarkerBias \<Rightarrow> int \<Rightarrow> int \<Rightarrow> int" where
  "marker_after_insert b markerPos insertOffset =
     offset_m (markers (edits (snd (CreateMarker (NewPieceTable (bytes ''hello,world'')) markerPos b))
                  [(insertOffset, insertOffset, ''golang'')]) ! 0)"

definition marker_after_erase :: "int \<Rightarrow> int \<Rightarrow> int \<Rightarrow> int" where
  "marker_after_erase markerPos s e =
     offset_m (markers (edits (snd (CreateMarker
                  (edits (NewPieceTable []) [(0, 0, ''Hello,''), (6, 6, ''golang''), (12, 12, '' world'')])
                  markerPos BiasBackward))
        [(s, e, [])]) ! 0)"

subsection \<open>Ranges in place and chains of swaps\<close>

text \<open>A range sits at a position of the list of pieces; a stack of swap records is a
  chain from the current list to a given one when the new range of each record sits
  in the list that the records above it lead to. On the stacks of a table after plain
  edits every batch is one record.\<close>

definition sits :: "nat \<Rightarrow> piece list \<Rightarrow> piece list \<Rightarrow> bool" where
  "sits k xs ps = (k + length xs \<le> length ps \<and> take (length xs) (drop k ps) = xs)"

fun swap_chain :: "piece list \<Rightarrow> swap_record list \<Rightarrow> piece list \<Rightarrow> bool" where
  "swap_chain ps [] p0 = (ps = p0)"
| "swap_chain ps (r # rs) p0 =
     (sits (pos r) (new_range r) ps
      \<and> swap_chain (splice_pieces (pos r) (new_range r) (old_range r) ps) rs p0)"

definition stacks_ok :: "PieceTable \<Rightarrow> piece list \<Rightarrow> piece list \<Rightarrow> bool" where
  "stacks_ok pt p0 pk =
     (swap_chain (pieces pt) (undoStack pt) p0 \<and> swap_chain (pieces pt) (redoStack pt) pk
      \<and> distinct (map batch_id (undoStack pt @ redoStack pt)))"

definition edits_ok :: "PieceTable \<Rightarrow> byte list \<Rightarrow> bool" where
  "edits_ok pt init =
     (swap_chain (pieces pt) (undoStack pt) (pieces (NewPieceTable init)) \<and> redoStack pt = []
      \<and> distinct (map batch_id (undoStack pt))
      \<and> (\<forall>r\<in>set (undoStack pt). batch_id r \<le> currentBatch pt)
      \<and> batchDepth pt = 0 \<and> original pt = init)"

section \<open>Properties of the backing store\<close>

lemma ensure_buf [simp]: "buf (ensure tb n) = buf tb"
  by (simp add: ensure_def Let_def)

lemma ensure_length_tb [simp]: "length_tb (ensure tb n) = length_tb tb"
  by (simp add: ensure_def Let_def)

lemma chunk_round_up: "(needed::int) \<le> ((needed + 4096 - 1) div 4096) * 4096"
proof -
  have "(needed + 4096 - 1) mod 4096 < 4096" by simp
  moreover have "((needed + 4096 - 1) div 4096) * 4096
      = (needed + 4096 - 1) - (needed + 4096 - 1) mod 4096"
    by (simp only: minus_mod_eq_div_mult)
  ultimately show ?thesis by linarith
qed

text \<open>After \<open>ensure\<close> the slice has room for \<open>n\<close> more bytes, so the \<open>append\<close>
  that follows it never reallocates.\<close>

lemma ensure_room: "n \<le> int (buf_cap (ensure tb n)) - int (length (buf tb))"
proof (cases "int (buf_cap tb) - int (length (buf tb)) \<ge> n")
  case True
  then show ?thesis by (simp add: ensure_def)
next
  case False
  define needed where "needed = int (length (buf tb)) + n"
  define newCap where "newCap = ((needed + 4096 - 1) div 4096) * 4096"
  have le: "needed \<le> newCap" unfolding newCap_def by (rule chunk_round_up)
  have "0 \<le> needed" using False by (simp add: needed_def)
  with le have nn: "0 \<le> newCap" by linarith
  have "buf_cap (ensure tb n) = nat newCap"
    using False by (simp add: ensure_def Let_def chunkSize_def needed_def newCap_def)
  then have "int (buf_cap (ensure tb n)) = newCap" using nn by simp
  then show ?thesis using le by (simp add: needed_def)
qed

text \<open>
  C6. \<open>append\<close> returns the rune length and the byte length the store had before the
  call and the UTF-8 rune count of the appended bytes; afterwards the store holds its
  former bytes followed by the appended ones (so the former bytes are an unchanged
  prefix) and its rune length has grown by exactly the returned rune count.
\<close>

theorem append_tb_grows_only:
  "fst (append_tb tb bs) = (length_tb tb, length (buf tb), RuneCount bs)
   \<and> buf (snd (append_tb tb bs)) = buf tb @ bs
   \<and> take (length (buf tb)) (buf (snd (append_tb tb bs))) = buf tb
   \<and> length_tb (snd (append_tb tb bs)) = length_tb tb + int (RuneCount bs)"
  by (simp add: append_tb_def go_append_def Let_def split: prod.splits)

text \<open>
  C8. \<open>ReadRuneAt\<close> returns the end-of-input triple \<open>(0, 0, io.EOF)\<close> exactly when the
  offset is at or beyond the byte length of the buffer. At every offset inside the
  buffer it returns the rune decoded there, its width and a nil error; the width is at
  least 1, so a failed decode (\<open>RuneError\<close>, width 1, nil) differs from end of input.
\<close>

theorem ReadRuneAt_eof_iff:
  "(ReadRuneAt tb byteOff = Inr (0, 0, Some EOF) \<longleftrightarrow> byteOff \<ge> int (length (buf tb)))
   \<and> (0 \<le> byteOff \<and> byteOff < int (length (buf tb)) \<longrightarrow>
        ReadRuneAt tb byteOff =
          Inr (fst (DecodeRune (drop (nat byteOff) (buf tb))),
               snd (DecodeRune (drop (nat byteOff) (buf tb))), None)
        \<and> 1 \<le> snd (DecodeRune (drop (nat byteOff) (buf tb))))"
proof -
  have pos: "1 \<le> snd (DecodeRune (drop (nat byteOff) (buf tb)))"
    if "0 \<le> byteOff" "byteOff < int (length (buf tb))"
    using that by (intro DecodeRune_size_pos) simp
  show ?thesis
    using pos by (auto simp: ReadRuneAt_def Let_def split: prod.splits)
qed

theorem ReadRuneAt_eof_iff_witness:
  "ReadRuneAt \<lparr>buf = [0x68, 0xFF], buf_cap = 2, length_tb = 2\<rparr> 1 = Inr (RuneError, 1, None)
   \<and> ReadRuneAt \<lparr>buf = [0x68, 0xFF], buf_cap = 2, length_tb = 2\<rparr> 2 = Inr (0, 0, Some EOF)"
  using ReadRuneAt_eof_iff [of "\<lparr>buf = [0x68, 0xFF], buf_cap = 2, length_tb = 2\<rparr>" 1]
    ReadRuneAt_eof_iff [of "\<lparr>buf = [0x68, 0xFF], buf_cap = 2, length_tb = 2\<rparr>" 2]
  by (simp add: DecodeRune_def first_def)

section \<open>Properties of the line wrapper\<close>

subsection \<open>Lines of a wrapped paragraph\<close>

lemma readToNextBreak_Nil:
  "nextGlyph (glyphBuf w) = [] \<Longrightarrow> readToNextBreak w b p = Inr (True, w)"
  by (simp add: readToNextBreak.simps [of w b p] next_g_def)

lemma wordLoop_Nil:
  "nextGlyph (glyphBuf w) = [] \<Longrightarrow> \<exists>st w'. wordLoop w p = Inr (st, w')"
proof (induction w p rule: wordLoop.induct)
  case (1 w p)
  obtain bi ok br where nb: "nextWordBreak (breaker w) = ((bi, ok), br)"
    by (metis surj_pair)
  have r: "readToNextBreak (w\<lparr>breaker := br\<rparr>) bi p = Inr (True, w\<lparr>breaker := br\<rparr>)"
    using "1.prems" by (simp add: readToNextBreak_Nil)
  show ?case
  proof (cases "ok \<and> \<not> fixed_I (maxWidth w) <s width (currentLine w) + advance (glyphBuf w)")
    case False
    then show ?thesis
      by (auto simp: wordLoop.simps [of w p] nb r)
  next
    case True
    then have "\<exists>st w'. wordLoop ((w\<lparr>breaker := br\<rparr>)\<lparr>currentLine :=
          append_line (currentLine (w\<lparr>breaker := br\<rparr>)) (get_g (glyphBuf (w\<lparr>breaker := br\<rparr>))),
          glyphBuf := reset (glyphBuf (w\<lparr>breaker := br\<rparr>))\<rparr>) p = Inr (st, w')"
      using "1.IH" [OF nb [symmetric] refl _ r refl] "1.prems"
      by (simp add: reset_def)
    with True show ?thesis
      by (simp add: wordLoop.simps [of w p] nb r)
  qed
qed

lemma graphemeLoop_Nil:
  "nextGlyph (glyphBuf w) = [] \<Longrightarrow> \<exists>w'. graphemeLoop w p = Inr w'"
proof -
  assume a: "nextGlyph (glyphBuf w) = []"
  obtain bi ok br where nb: "nextGraphemeBreak (breaker w) = ((bi, ok), br)"
    by (metis surj_pair)
  have "readToNextBreak (w\<lparr>breaker := br, glyphBuf := reset (glyphBuf w)\<rparr>) bi p
      = Inr (True, w\<lparr>breaker := br, glyphBuf := reset (glyphBuf w)\<rparr>)"
    using a by (simp add: readToNextBreak_Nil reset_def)
  then show ?thesis
    by (simp add: graphemeLoop.simps [of w p] nb)
qed

lemma wrapNextLine_Nil:
  assumes "nextGlyph (glyphBuf w) = []"
  shows "\<exists>l w'. wrapNextLine w p = Inr (l, w')"
proof -
  have "nextGlyph (glyphBuf (takeRemaining w)) = []"
    using assms by (simp add: takeRemaining_fields)
  from wordLoop_Nil [OF this, of p] obtain st w2
    where wl: "wordLoop (takeRemaining w) p = Inr (st, w2)" by blast
  from wordLoop_mono [OF wl] assms have "nextGlyph (glyphBuf w2) = []"
    by (simp add: takeRemaining_fields)
  from graphemeLoop_Nil [OF this, of p] obtain w3 where "graphemeLoop w2 p = Inr w3" by blast
  with wl show ?thesis by (simp add: wrapNextLine_def Let_def)
qed

lemma wrapLoop_nonempty:
  "wrapLoop w p ls = Inr lines \<Longrightarrow> \<forall>l\<in>set ls. 0 < length (glyphs l) \<Longrightarrow>
     \<forall>l\<in>set lines. 0 < length (glyphs l)"
proof (induction w p ls rule: wrapLoop.induct)
  case (1 w p ls)
  note prem = "1.prems"(1) [unfolded wrapLoop.simps [of w p ls]]
  show ?case
  proof (cases "wrapNextLine w p")
    case (Inl e)
    with prem show ?thesis by simp
  next
    case (Inr y)
    obtain l w' where y: "y = (l, w')" by (cases y)
    show ?thesis
    proof (cases "length (glyphs l) = 0")
      case True
      with Inr y prem "1.prems"(2) show ?thesis by simp
    next
      case False
      with Inr y prem have "wrapLoop (w'\<lparr>currentLine := emptyLine\<rparr>) p (ls @ [l]) = Inr lines"
        by simp
      moreover have "\<forall>l\<in>set (ls @ [l]). 0 < length (glyphs l)"
        using "1.prems"(2) False by simp
      ultimately show ?thesis
        using "1.IH" [OF Inr y [symmetric] False] by blast
    qed
  qed
qed

lemma wrapLoop_exhausted:
  assumes "nextGlyph (glyphBuf w) = []" "buf_g (glyphBuf w) = []" "glyphs (currentLine w) = []"
  shows "wrapLoop w p ls = Inr ls"
proof -
  from wrapNextLine_Nil [OF assms(1), of p] obtain l w'
    where wn: "wrapNextLine w p = Inr (l, w')" by blast
  have "glyphs l = []"
  proof (rule ccontr)
    assume ne: "glyphs l \<noteq> []"
    from wrapNextLine_mono(2) [OF wn] assms(1)
    have "length (nextGlyph (glyphBuf w')) = length (nextGlyph (glyphBuf w))" by simp
    from wrapNextLine_mono(3) [OF wn this assms(3) ne] assms(2) show False by simp
  qed
  with wn show ?thesis by (simp add: wrapLoop.simps [of w p ls])
qed

text \<open>
  C10. Every visual line in the slice that \<open>WrapParagraph\<close> returns holds at least one
  glyph, and for an exhausted glyph iterator the result is the empty slice: the loop
  ends at the first line that comes back without glyphs and never appends it.
\<close>

theorem WrapParagraph_lines_nonempty:
  "(WrapParagraph w seg glyphsIter p maxW tabStop spaceGl = Inr lines \<longrightarrow>
      (\<forall>l\<in>set lines. 0 < length (glyphs l)))
   \<and> WrapParagraph w seg [] p maxW tabStop spaceGl = Inr []"
proof
  show "WrapParagraph w seg glyphsIter p maxW tabStop spaceGl = Inr lines \<longrightarrow>
      (\<forall>l\<in>set lines. 0 < length (glyphs l))"
    using wrapLoop_nonempty [of _ p "[]" lines] by (auto simp: WrapParagraph_def)
  show "WrapParagraph w seg [] p maxW tabStop spaceGl = Inr []"
    unfolding WrapParagraph_def
    by (rule wrapLoop_exhausted) (simp_all add: setup_w_def reset_def emptyLine_def)
qed

text \<open>The paragraph \<open>ab cd\<close> with glyphs 10 pixels wide and a maximal width of 40
  pixels: two lines, of three and of two glyphs.\<close>

theorem WrapParagraph_lines_nonempty_witness:
  "WrapParagraph zeroWrapper
     ([\<lparr>seg_Offset = 0, seg_Text = [97, 98, 32]\<rparr>, \<lparr>seg_Offset = 3, seg_Text = [99, 100]\<rparr>],
      graphemes 0 [97, 98, 32, 99, 100])
     [runeGlyph 1 640, runeGlyph 2 640, runeGlyph 3 640, runeGlyph 4 640, runeGlyph 5 640]
     [97, 98, 32, 99, 100] 40 2560 (Some (runeGlyph 3 640))
   = Inr [append_line emptyLine [runeGlyph 1 640, runeGlyph 2 640, runeGlyph 3 640],
          append_line emptyLine [runeGlyph 4 640, runeGlyph 5 640]]
   \<and> 0 < length (glyphs (append_line emptyLine [runeGlyph 1 640, runeGlyph 2 640, runeGlyph 3 640]))
   \<and> 0 < length (glyphs (append_line emptyLine [runeGlyph 4 640, runeGlyph 5 640]))
   \<and> WrapParagraph zeroWrapper
     ([\<lparr>seg_Offset = 0, seg_Text = [97, 98, 32]\<rparr>, \<lparr>seg_Offset = 3, seg_Text = [99, 100]\<rparr>],
      graphemes 0 [97, 98, 32, 99, 100])
     [] [97, 98, 32, 99, 100] 40 2560 (Some (runeGlyph 3 640)) = Inr []"
proof -
  have e: "WrapParagraph zeroWrapper
     ([\<lparr>seg_Offset = 0, seg_Text = [97, 98, 32]\<rparr>, \<lparr>seg_Offset = 3, seg_Text = [99, 100]\<rparr>],
      graphemes 0 [97, 98, 32, 99, 100])
     [runeGlyph 1 640, runeGlyph 2 640, runeGlyph 3 640, runeGlyph 4 640, runeGlyph 5 640]
     [97, 98, 32, 99, 100] 40 2560 (Some (runeGlyph 3 640))
   = Inr [append_line emptyLine [runeGlyph 1 640, runeGlyph 2 640, runeGlyph 3 640],
          append_line emptyLine [runeGlyph 4 640, runeGlyph 5 640]]"
    by code_simp
  from WrapParagraph_lines_nonempty
    [of zeroWrapper "([\<lparr>seg_Offset = 0, seg_Text = [97, 98, 32]\<rparr>,
          \<lparr>seg_Offset = 3, seg_Text = [99, 100]\<rparr>], graphemes 0 [97, 98, 32, 99, 100])"
        "[runeGlyph 1 640, runeGlyph 2 640, runeGlyph 3 640, runeGlyph 4 640, runeGlyph 5 640]"
        "[97, 98, 32, 99, 100]" 40 2560 "Some (runeGlyph 3 640)"
        "[append_line emptyLine [runeGlyph 1 640, runeGlyph 2 640, runeGlyph 3 640],
          append_line emptyLine [runeGlyph 4 640, runeGlyph 5 640]]"] e
  show ?thesis by simp
qed

subsection \<open>The breaker's pushback slot\<close>

lemma callBreak_ok:
  "callBreak c b = ((i, True), b') \<Longrightarrow>
     prevBreak b' = i \<and> \<not> prevUnread b' \<and> prevBreak b \<le> i \<and> (\<not> prevUnread b \<longrightarrow> prevBreak b < i)
     \<and> (prevUnread b \<longrightarrow> wordSegmenter b' = wordSegmenter b
            \<and> graphemeSegmenter b' = graphemeSegmenter b)"
  by (cases c)
     (auto simp: callBreak_def nextWordBreak_def nextGraphemeBreak_def
       split: if_splits prod.splits option.splits dest: scanBreak_Some)

lemma callBreak_fail:
  "callBreak c b = ((i, False), b') \<Longrightarrow> prevBreak b' = prevBreak b \<and> \<not> prevUnread b' \<and> \<not> prevUnread b"
  by (cases c)
     (auto simp: callBreak_def nextWordBreak_def nextGraphemeBreak_def
       split: if_splits prod.splits option.splits)

lemma callBreaks_bounds:
  "j \<in> set (callBreaks cs b) \<Longrightarrow> prevBreak b \<le> j \<and> (\<not> prevUnread b \<longrightarrow> prevBreak b < j)"
proof (induction cs arbitrary: b)
  case Nil
  then show ?case by simp
next
  case (Cons c cs)
  obtain i ok b' where cb: "callBreak c b = ((i, ok), b')" by (metis surj_pair)
  show ?case
  proof (cases ok)
    case True
    from cb True have "callBreak c b = ((i, True), b')" by simp
    note o = callBreak_ok [OF this]
    from Cons.prems cb True have "j = i \<or> j \<in> set (callBreaks cs b')" by auto
    then show ?thesis
    proof
      assume "j = i"
      with o show ?thesis by simp
    next
      assume "j \<in> set (callBreaks cs b')"
      from Cons.IH [OF this] o show ?thesis by auto
    qed
  next
    case False
    from cb False have "callBreak c b = ((i, False), b')" by simp
    note f = callBreak_fail [OF this]
    from Cons.prems cb False have "j \<in> set (callBreaks cs b')" by auto
    from Cons.IH [OF this] f show ?thesis by auto
  qed
qed

lemma callBreaks_increasing: "sorted_wrt (<) (callBreaks cs b)"
proof (induction cs arbitrary: b)
  case Nil
  then show ?case by simp
next
  case (Cons c cs)
  obtain i ok b' where cb: "callBreak c b = ((i, ok), b')" by (metis surj_pair)
  show ?case
  proof (cases ok)
    case True
    from cb True have "callBreak c b = ((i, True), b')" by simp
    note o = callBreak_ok [OF this]
    have "\<forall>j\<in>set (callBreaks cs b'). i < j"
      using callBreaks_bounds [of _ cs b'] o by auto
    with Cons.IH [of b'] cb True show ?thesis by simp
  next
    case False
    with Cons.IH [of b'] cb show ?thesis by simp
  qed
qed

lemma markPrevUnread_again:
  assumes "callBreak c b = ((i, True), b1)"
  shows "nextWordBreak (markPrevUnread b1) = ((i, True), b1)"
    and "nextGraphemeBreak (markPrevUnread b1) = ((i, True), b1)"
  using callBreak_ok [OF assms]
  by (simp_all add: nextWordBreak_def nextGraphemeBreak_def markPrevUnread_def)

text \<open>
  C9. The break offsets returned by successive calls of \<open>nextWordBreak\<close> (and by any
  mix of calls of the two iterators) are strictly increasing. After \<open>markPrevUnread\<close>
  the next call of either \<open>nextWordBreak\<close> or \<open>nextGraphemeBreak\<close> returns the offset
  returned last once more and leaves the breaker as it was after that call, so neither
  segmenter advances: the slot \<open>prevBreak\<close>/\<open>prevUnread\<close> is shared by both.
\<close>

theorem breaker_pushback_shared:
  "sorted_wrt (<) (callBreaks (replicate n WordBreak) b)
   \<and> sorted_wrt (<) (callBreaks cs b)
   \<and> (callBreak c b = ((i, True), b1) \<longrightarrow>
        nextWordBreak (markPrevUnread b1) = ((i, True), b1)
        \<and> nextGraphemeBreak (markPrevUnread b1) = ((i, True), b1))"
  using callBreaks_increasing markPrevUnread_again by blast

theorem breaker_pushback_shared_witness:
  "callBreaks (replicate 3 WordBreak) breaker_ab_cd = [3, 5]
   \<and> sorted_wrt (<) (callBreaks (replicate 3 WordBreak) breaker_ab_cd)
   \<and> fst (callBreak WordBreak breaker_ab_cd) = (3, True)
   \<and> nextGraphemeBreak (markPrevUnread (snd (callBreak WordBreak breaker_ab_cd)))
       = ((3, True), snd (callBreak WordBreak breaker_ab_cd))
   \<and> nextWordBreak (markPrevUnread (snd (callBreak WordBreak breaker_ab_cd)))
       = ((3, True), snd (callBreak WordBreak breaker_ab_cd))"
proof -
  have a: "callBreaks (replicate 3 WordBreak) breaker_ab_cd = [3, 5]"
    by code_simp
  have b: "fst (callBreak WordBreak breaker_ab_cd) = (3, True)"
    by code_simp
  then have c: "callBreak WordBreak breaker_ab_cd
      = ((3, True), snd (callBreak WordBreak breaker_ab_cd))"
    by (metis prod.collapse)
  from breaker_pushback_shared
    [of 3 breaker_ab_cd "[]" WordBreak 3 "snd (callBreak WordBreak breaker_ab_cd)"] a b c
  show ?thesis by simp
qed

subsection \<open>A word wider than the line\<close>

text \<open>When \<open>readToNextBreak\<close> reports that it stopped early, the buffer is wider
  than the line and marked as overflowing; when the first loop of \<open>wrapNextLine\<close>
  stops in \<open>wrapWordOverflow\<close>, the word break is pushed back as well.\<close>

lemma readToNextBreak_False:
  "readToNextBreak w b p = Inr (False, w') \<Longrightarrow>
     overflow (glyphBuf w') \<and> fixed_I (maxWidth w') <s advance (glyphBuf w')"
proof (induction w b p arbitrary: w' rule: readToNextBreak.induct)
  case (1 w b p)
  note prem = "1.prems" [unfolded readToNextBreak.simps [of w b p]]
  show ?case
  proof (cases "b > runeOff w")
    case False
    with prem show ?thesis by simp
  next
    case True
    show ?thesis
    proof (cases "next_g (glyphBuf w)")
      case (Pair o1 gb)
      show ?thesis
      proof (cases o1)
        case None
        with Pair True prem show ?thesis by simp
      next
        case (Some gl)
        show ?thesis
        proof (cases "clusterBreak (w\<lparr>glyphBuf := gb\<rparr>) gl p")
          case (Inl e)
          with Pair Some True prem show ?thesis by simp
        next
          case (Inr w3)
          show ?thesis
          proof (cases "fixed_I (maxWidth w3) <s advance (glyphBuf w3)")
            case ov: True
            with Pair Some True Inr prem
            have "w' = w3\<lparr>glyphBuf := (glyphBuf w3)\<lparr>overflow := True\<rparr>\<rparr>" by simp
            with ov show ?thesis by (simp add: advance_def)
          next
            case nov: False
            with Pair Some True Inr prem have "readToNextBreak w3 b p = Inr (False, w')"
              by simp
            with "1.IH" [OF True Pair [symmetric] Some Inr nov] show ?thesis by simp
          qed
        qed
      qed
    qed
  qed
qed

lemma wordLoop_overflow_marks:
  "wordLoop w p = Inr (wrapWordOverflow, w') \<Longrightarrow>
     overflow (glyphBuf w') \<and> prevUnread (breaker w')
     \<and> fixed_I (maxWidth w') <s advance (glyphBuf w')"
proof (induction w p arbitrary: w' rule: wordLoop.induct)
  case (1 w p)
  note prem = "1.prems" [unfolded wordLoop.simps [of w p]]
  obtain bi ok br where nb: "nextWordBreak (breaker w) = ((bi, ok), br)"
    by (metis surj_pair)
  show ?case
  proof (cases ok)
    case False
    with nb prem show ?thesis by simp
  next
    case True
    show ?thesis
    proof (cases "readToNextBreak (w\<lparr>breaker := br\<rparr>) bi p")
      case (Inl e)
      with nb True prem show ?thesis by simp
    next
      case (Inr y)
      obtain wordOk w2 where y: "y = (wordOk, w2)" by (cases y)
      show ?thesis
      proof (cases wordOk)
        case False
        with nb True Inr y prem have "w' = w2\<lparr>breaker := markPrevUnread (breaker w2)\<rparr>"
          by simp
        with readToNextBreak_False [of "w\<lparr>breaker := br\<rparr>" bi p w2] Inr y False
        show ?thesis by (simp add: markPrevUnread_def)
      next
        case wok: True
        show ?thesis
        proof (cases "fixed_I (maxWidth w2) <s width (currentLine w2) + advance (glyphBuf w2)")
          case True
          with nb \<open>ok\<close> Inr y wok prem show ?thesis by simp
        next
          case nlo: False
          with nb \<open>ok\<close> Inr y wok prem
          have "wordLoop (w2\<lparr>currentLine := append_line (currentLine w2) (get_g (glyphBuf w2)),
                            glyphBuf := reset (glyphBuf w2)\<rparr>) p = Inr (wrapWordOverflow, w')"
            by simp
          with "1.IH" [OF nb [symmetric] refl _ Inr y [symmetric] _ nlo] \<open>ok\<close> wok
          show ?thesis by simp
        qed
      qed
    qed
  qed
qed

text \<open>
  C4. The glyphs of the returned lines, in order, should be the glyphs of the
  paragraph. For \<open>hi abcdef\<close> at a maximal width of 35 pixels (nine glyphs whose rune
  counts add up to the nine runes) \<open>WrapParagraph\<close> returns the single line \<open>hi \<close>: the
  six glyphs of the word that does not fit are in no line. The second loop of
  \<open>wrapNextLine\<close> empties the buffer that holds the glyphs of the word before it
  reads on, and a line that comes back empty ends the loop of \<open>WrapParagraph\<close>.
\<close>

theorem WrapParagraph_drops_overlong_word:
  "sum_list (map (\<lambda>g. unat (Runes g)) (shaped 9)) = length par_hi_abcdef
   \<and> WrapParagraph zeroWrapper seg_hi_abcdef (shaped 9) par_hi_abcdef 35 2560
         (Some (runeGlyph 3 640))
       = Inr [append_line emptyLine (take 3 (shaped 9))]"
  by code_simp

text \<open>
  C7. For \<open>abcdef\<close> at a maximal width of 25 pixels the first loop stops in
  \<open>wrapWordOverflow\<close> with the first three glyphs in the buffer, the buffer marked as
  overflowing and the word break 6 pushed back. The break that the grapheme loop then
  gets is that word break, not a grapheme boundary inside the word; the loop resets the
  buffer, \<open>wrapNextLine\<close> returns a line without glyphs and \<open>WrapParagraph\<close> no line
  at all, so the word is not broken at grapheme-cluster boundaries.
\<close>

theorem wrapNextLine_overflow_not_split:
  "(case wordLoop (setup_w zeroWrapper seg_abcdef (shaped 6) par_abcdef 25 2560
                     (Some (runeGlyph 3 640))) par_abcdef of
      Inl e \<Rightarrow> False
    | Inr (st, w2) \<Rightarrow>
        st = wrapWordOverflow \<and> overflow (glyphBuf w2) \<and> prevUnread (breaker w2)
        \<and> buf_g (glyphBuf w2) = take 3 (shaped 6)
        \<and> fst (nextGraphemeBreak (breaker w2)) = (6, True))
   \<and> map_sum id fst (wrapNextLine (setup_w zeroWrapper seg_abcdef (shaped 6) par_abcdef 25 2560
                     (Some (runeGlyph 3 640))) par_abcdef) = Inr emptyLine
   \<and> WrapParagraph zeroWrapper seg_abcdef (shaped 6) par_abcdef 25 2560 (Some (runeGlyph 3 640))
       = Inr []"
  by code_simp

subsection \<open>Tab stops\<close>

text \<open>The arithmetic of \<open>expandTabGlyph\<close>, for a line width that is not negative
  and a positive interval: the glyph it writes has the space glyph's id, ascent and
  descent, and its advance is the distance from the line width to the next multiple of
  the interval, hence positive. This holds in 32-bit arithmetic as it stands.\<close>

lemma sdiv_nonneg: "0 \<le> (a::int) \<Longrightarrow> 0 < b \<Longrightarrow> a sdiv b = a div b"
  by (simp add: signed_divide_int_def sgn_if)

lemma sint_word32:
  fixes x :: int
  assumes "- (2 ^ 31) \<le> x" "x < 2 ^ 31"
  shows "sint (word_of_int x :: 32 word) = x"
proof -
  have "sint (word_of_int x :: 32 word) = signed_take_bit (LENGTH(32) - 1) x"
    by (rule sint_sbintrunc')
  also have "\<dots> = x" using assms by (simp add: signed_take_bit_int_eq_self)
  finally show ?thesis .
qed

lemma next_tab_stop:
  fixes wd iv :: Int26_6
  assumes "0 \<le> sint wd" "0 < sint iv"
  shows "sint ((div_Int26_6 wd iv + 1) * iv - wd) = sint iv - sint wd mod sint iv"
proof -
  define W where "W = sint wd"
  define I where "I = sint iv"
  have wd: "wd = word_of_int W" and iv: "iv = word_of_int I"
    by (simp_all add: W_def I_def)
  have q: "div_Int26_6 wd iv = word_of_int (W div I)"
    using assms by (simp add: div_Int26_6_def W_def I_def sdiv_nonneg)
  have "(div_Int26_6 wd iv + 1) * iv - wd = word_of_int ((W div I + 1) * I - W)"
    unfolding q by (simp add: wd iv)
  also have "(W div I + 1) * I - W = I - W mod I"
    by (simp add: algebra_simps minus_mod_eq_mult_div [symmetric])
  finally have e: "(div_Int26_6 wd iv + 1) * iv - wd = word_of_int (I - W mod I)" .
  have "0 \<le> W mod I" "W mod I < I" using assms by (simp_all add: I_def)
  moreover have "I < 2 ^ 31" using sint_lt [of iv] by (simp add: I_def)
  ultimately have "- (2 ^ 31) \<le> I - W mod I" "I - W mod I < 2 ^ 31" by simp_all
  then have "sint (word_of_int (I - W mod I) :: 32 word) = I - W mod I"
    by (rule sint_word32)
  with e show ?thesis by (simp add: W_def I_def)
qed

lemma expandTabGlyph_advance:
  assumes "0 \<le> sint (width (currentLine w))" "0 < sint (tabStopInterval w)"
    and "spaceGlyph w = Some sp"
  shows "\<exists>gl'. expandTabGlyph w gl = Inr gl'
     \<and> sint (Advance gl') = sint (tabStopInterval w)
          - sint (width (currentLine w)) mod sint (tabStopInterval w)
     \<and> 0 < sint (Advance gl')
     \<and> ID gl' = ID sp \<and> Ascent gl' = Ascent sp \<and> Descent gl' = Descent sp"
proof -
  have nz: "tabStopInterval w \<noteq> 0" using assms(2) by auto
  have "0 \<le> sint (width (currentLine w)) mod sint (tabStopInterval w)"
    "sint (width (currentLine w)) mod sint (tabStopInterval w) < sint (tabStopInterval w)"
    using assms(2) by simp_all
  with next_tab_stop [OF assms(1,2)] nz assms(3) show ?thesis
    by (simp add: expandTabGlyph_def Let_def)
qed

text \<open>
  C5. The glyph of a tab should leave the wrapper with its advance rewritten to the
  distance to the next tab stop and with the id, ascent and descent of the space
  glyph. For a tab and \<open>X\<close> at a tab stop interval of 40 pixels the line that
  \<open>WrapParagraph\<close> returns holds the tab glyph as it was shaped (id 7, advance 700);
  \<open>expandTabGlyph\<close> would have made it the space glyph's id 3 with advance 2560, but
  \<open>readToNextBreak\<close> hands it the copy that \<open>next\<close> returned, not the glyph in the
  buffer.
\<close>

theorem WrapParagraph_keeps_tab_advance:
  "WrapParagraph zeroWrapper seg_tab_X [runeGlyph 7 700, runeGlyph 59 640] [9, 88] 100 2560
       (Some (runeGlyph 3 320))
     = Inr [append_line emptyLine [runeGlyph 7 700, runeGlyph 59 640]]
   \<and> expandTabGlyph
        (setup_w zeroWrapper seg_tab_X [runeGlyph 7 700, runeGlyph 59 640] [9, 88] 100 2560
           (Some (runeGlyph 3 320)))
        (runeGlyph 7 700)
     = Inr (runeGlyph 3 2560)"
  by code_simp

section \<open>Properties of the piece table\<close>

subsection \<open>The tests of the repository on the model\<close>

text \<open>The tests of package \<open>buffer\<close> that exercise the piece table
  (\<open>TestReplace\<close>, \<open>TestAppendReplace\<close>, \<open>TestUndo\<close>, \<open>TestErase\<close>,
  \<open>TestGroupOp\<close>, \<open>TestMarkerOnInsert\<close>, \<open>TestMarkerOnErase\<close>) are among the
  sources. Their inputs give their expected values on the model; as in the tests,
  appended texts are merged when they are a single rune.\<close>

lemma TestReplace:
  "content (edits (NewPieceTable []) [(0, 0, ''Hello, world''), (6, 6, '' Go'')])
     = bytes ''Hello, Go world''"
  "content (edits (NewPieceTable (bytes ''Hello, world''))
       [(6, 6, '' Go''), (6, 6, '' welcome to the'')])
     = bytes ''Hello, welcome to the Go world''"
  by code_simp+

lemma TestAppendReplace:
  "content (edits (NewPieceTable [])
       [(0, 0, ''H''), (1, 1, ''e''), (2, 2, ''l''), (3, 3, ''l''), (4, 4, ''o'')])
     = bytes ''Hello''"
  "length (pieces (edits (NewPieceTable [])
       [(0, 0, ''H''), (1, 1, ''e''), (2, 2, ''l''), (3, 3, ''l''), (4, 4, ''o'')])) = 1"
  "length (pieces (edits (NewPieceTable [])
       [(0, 0, ''H''), (1, 1, ''e''), (2, 2, ''l''), (3, 3, ''l''), (4, 4, ''o''),
        (5, 5, '', world'')])) = 2"
  by code_simp+

lemma TestUndo:
  "depth (undoStack hello_world) = 2" "depth (redoStack hello_world) = 0"
  "seqLength hello_world = 12" "seqBytes hello_world = 12"
  "depth (undoStack (undo hello_world)) = 1" "depth (redoStack (undo hello_world)) = 1"
  "seqLength (undo hello_world) = 7" "seqBytes (undo hello_world) = 7"
  "content (undo hello_world) = bytes ''Hello, ''"
  "depth (undoStack (undo (undo hello_world))) = 0"
  "depth (redoStack (undo (undo hello_world))) = 2"
  "content (undo (undo hello_world)) = []"
  by code_simp+

lemma TestErase:
  "map (\<lambda>(s, e). (content (edits (NewPieceTable [])
                      [(0, 0, ''Hello''), (5, 5, '',world''), (s, e, [])]),
                   seqBytes (edits (NewPieceTable [])
                      [(0, 0, ''Hello''), (5, 5, '',world''), (s, e, [])])))
     [(0, 3), (6, 8), (4, 6), (2, 5), (0, 5), (0, 11)]
   = [(bytes ''lo,world'', 8), (bytes ''Hello,rld'', 9), (bytes ''Hellworld'', 9),
      (bytes ''He,world'', 8), (bytes '',world'', 6), ([], 0)]"
  by code_simp

lemma TestGroupOp:
  "currentBatch (UnGroupOp (GroupOp (GroupOp (NewPieceTable []))))
     = currentBatch (GroupOp (NewPieceTable []))"
  "currentBatch (UnGroupOp (UnGroupOp (GroupOp (GroupOp (NewPieceTable [])))))
     \<noteq> currentBatch (GroupOp (NewPieceTable []))"
  by code_simp+

lemma TestMarkerOnInsert:
  "[marker_after_insert BiasForward 6 4, marker_after_insert BiasBackward 6 4,
    marker_after_insert BiasForward 6 6, marker_after_insert BiasBackward 6 6,
    marker_after_insert BiasForward 6 7, marker_after_insert BiasBackward 6 7,
    marker_after_insert BiasBackward 0 0, marker_after_insert BiasForward 0 0]
   = [12, 12, 12, 6, 6, 6, 0, 6]"
  by code_simp

lemma TestMarkerOnErase:
  "[marker_after_erase 3 0 2, marker_after_erase 2 0 2, marker_after_erase 1 1 2,
    marker_after_erase 3 4 6, marker_after_erase 5 4 6, marker_after_erase 7 6 12,
    marker_after_erase 14 5 13]
   = [1, 0, 1, 3, 4, 6, 6]"
  by code_simp

subsection \<open>Swaps and their inverses\<close>

lemma sits_decompose:
  assumes "sits k xs ps"
  shows "ps = take k ps @ xs @ drop (k + length xs) ps"
proof -
  have 1: "take k ps @ drop k ps = ps" by (rule append_take_drop_id)
  have 2: "take (length xs) (drop k ps) @ drop (length xs) (drop k ps) = drop k ps"
    by (rule append_take_drop_id)
  have 3: "drop (length xs) (drop k ps) = drop (k + length xs) ps"
    by (simp add: add.commute)
  have 4: "take (length xs) (drop k ps) = xs" using assms by (simp add: sits_def)
  from 2 have "drop k ps = xs @ drop (k + length xs) ps" by (simp only: 3 4)
  with 1 show ?thesis by metis
qed

lemma splice_sits: "k \<le> length ps \<Longrightarrow> sits k new (splice_pieces k old new ps)"
  by (simp add: sits_def splice_pieces_def)

lemma splice_inverse:
  assumes "sits k old ps"
  shows "splice_pieces k new old (splice_pieces k old new ps) = ps"
proof -
  have k: "k \<le> length ps" using assms by (simp add: sits_def)
  have "splice_pieces k new old (splice_pieces k old new ps) = take k ps @ old @ drop (k + length old) ps"
    using k by (simp add: splice_pieces_def)
  with sits_decompose [OF assms] show ?thesis by simp
qed

lemma sits_le: "sits k xs ps \<Longrightarrow> k \<le> length ps"
  by (simp add: sits_def)

lemma find_piece_at_append: "find_piece_at ps r = (pre, rest, off) \<Longrightarrow> ps = pre @ rest"
  by (induction ps arbitrary: r pre rest off) (auto split: if_splits prod.splits)

lemma pieces_until_append: "pieces_until ps e = (mid, post, off) \<Longrightarrow> ps = mid @ post"
  by (induction ps arbitrary: e mid post off) (auto split: if_splits prod.splits)

lemma isolate_sits:
  assumes "isolate pt s e = (k, mid, left, right)"
  shows "sits k mid (pieces pt)"
proof -
  obtain pre rest off where f: "find_piece_at (pieces pt) s = (pre, rest, off)"
    by (metis prod_cases3)
  obtain mid' post eoff where u: "pieces_until rest (off + (e - s)) = (mid', post, eoff)"
    by (metis prod_cases3)
  from assms f u have "k = length pre" "mid = mid'" by (simp_all add: isolate_def)
  with find_piece_at_append [OF f] pieces_until_append [OF u] show ?thesis
    by (simp add: sits_def)
qed

text \<open>What an edit that changes the table does to the list of pieces and to the
  stacks.\<close>

lemma Replace_fst:
  "fst (Replace mg pt s e t) \<longleftrightarrow>
     \<not> (min (nat s) (seqLength pt) = max (min (nat s) (seqLength pt)) (min (nat e) (seqLength pt))
        \<and> t = [])"
  by (simp add: Replace_def Let_def split_beta)

lemma Replace_unchanged:
  assumes "Replace mg pt s e t = (False, pt')"
  shows "pt' = pt"
proof -
  from assms have "\<not> fst (Replace mg pt s e t)" by simp
  then have "min (nat s) (seqLength pt)
      = max (min (nat s) (seqLength pt)) (min (nat e) (seqLength pt)) \<and> t = []"
    by (simp only: Replace_fst simp_thms)
  then have "Replace mg pt s e t = (False, pt)"
    by (simp add: Replace_def Let_def)
  with assms show ?thesis by simp
qed

lemma Replace_changed:
  assumes "Replace mg pt s e t = (True, pt')"
  shows "\<exists>r. pieces pt' = splice_pieces (pos r) (old_range r) (new_range r) (pieces pt)
      \<and> sits (pos r) (old_range r) (pieces pt)
      \<and> undoStack pt' = r # undoStack pt \<and> redoStack pt' = []
      \<and> batch_id r = (if batchDepth pt = 0 then currentBatch pt + 1 else currentBatch pt)
      \<and> currentBatch pt' = batch_id r \<and> batchDepth pt' = batchDepth pt
      \<and> original pt' = original pt"
proof -
  define len where "len = seqLength pt"
  define s' where "s' = min (nat s) len"
  define e' where "e' = max s' (min (nat e) len)"
  define pt1 where "pt1 = pt\<lparr>modify := modify pt @ t\<rparr>"
  define merge where "merge \<longleftrightarrow> s' = len \<and> e' = s' \<and> t \<noteq> [] \<and> lastAppend pt \<and> pieces pt \<noteq> []
      \<and> source_p (last (pieces pt)) = Modify
      \<and> byte_offset (last (pieces pt)) + byte_length (last (pieces pt)) = length (modify pt)
      \<and> mg t"
  define newPiece where "newPiece = (if t = [] then []
      else [\<lparr>source_p = Modify, byte_offset = length (modify pt),
             byte_length = length t, rune_length = RuneCount t\<rparr>])"
  define kon where "kon =
      (if merge then
         (length (pieces pt) - 1, [last (pieces pt)],
          [(last (pieces pt))\<lparr>byte_length := byte_length (last (pieces pt)) + length t,
                               rune_length := rune_length (last (pieces pt)) + RuneCount t\<rparr>])
       else case isolate pt1 s' e' of
              (k, mid, left, right) \<Rightarrow> (k, mid, left @ newPiece @ right))"
  obtain k old new where kon': "kon = (k, old, new)" by (cases kon)
  define r where "r = \<lparr>pos = k, old_range = old, new_range = new,
      batch_id = (if batchDepth pt = 0 then currentBatch pt + 1 else currentBatch pt),
      edit_start = int s', edit_end = int e', edit_runes = int (RuneCount t)\<rparr>"
  have "fst (Replace mg pt s e t)" using assms by simp
  then have nz: "\<not> (s' = e' \<and> t = [])"
    by (simp only: Replace_fst s'_def e'_def len_def simp_thms)
  have pt': "pt' = pt1\<lparr>pieces := splice_pieces k old new (pieces pt),
      undoStack := r # undoStack pt, redoStack := [],
      seqLength := len - (e' - s') + RuneCount t,
      seqBytes := seqBytes pt + sum_bytes new - sum_bytes old,
      currentBatch := batch_id r,
      lastAppend := (s' = e' \<and> s' = len \<and> t \<noteq> []),
      markers := relocate_all (int s') (int e') (int (RuneCount t)) (markers pt)\<rparr>"
    using assms nz kon'
    unfolding Replace_def Let_def len_def [symmetric] s'_def [symmetric] e'_def [symmetric]
      pt1_def [symmetric] merge_def [symmetric] newPiece_def [symmetric] kon_def [symmetric]
    by (simp add: r_def)
  have st: "sits k old (pieces pt)"
  proof (cases merge)
    case True
    then have ne: "pieces pt \<noteq> []" by (simp add: merge_def)
    from True kon' have "k = length (pieces pt) - 1" "old = [last (pieces pt)]"
      by (simp_all add: kon_def)
    moreover from ne obtain ys y where "pieces pt = ys @ [y]"
      by (metis append_butlast_last_id)
    ultimately show ?thesis by (simp add: sits_def)
  next
    case False
    obtain k1 mid left right where i: "isolate pt1 s' e' = (k1, mid, left, right)"
      by (metis prod_cases4)
    with False kon' have "k = k1" "old = mid" by (simp_all add: kon_def)
    with isolate_sits [OF i] show ?thesis by (simp add: pt1_def)
  qed
  show ?thesis
    using st by (intro exI [of _ r]) (simp add: pt' r_def pt1_def)
qed

subsection \<open>Undo and redo on stacks of single-record batches\<close>

lemma top_batch_single:
  assumes "\<forall>x\<in>set rs. batch_id x \<noteq> batch_id r"
  shows "top_batch (r # rs) = [r]" and "below_batch (r # rs) = rs"
proof -
  have "takeWhile (\<lambda>x. batch_id x = batch_id r) rs = []"
    using assms by (cases rs) auto
  moreover have "dropWhile (\<lambda>x. batch_id x = batch_id r) rs = rs"
    using assms by (cases rs) auto
  ultimately show "top_batch (r # rs) = [r]" and "below_batch (r # rs) = rs"
    by (simp_all add: top_batch_def below_batch_def)
qed

lemma distinct_top:
  assumes "distinct (map batch_id ((r # us) @ rs))"
  shows "\<forall>x\<in>set us. batch_id x \<noteq> batch_id r"
proof
  fix x assume "x \<in> set us"
  then have "batch_id x \<in> batch_id ` set us" by (rule imageI)
  moreover from assms have "batch_id r \<notin> batch_id ` set us" by simp
  ultimately show "batch_id x \<noteq> batch_id r" by metis
qed

lemma undo_empty: "undoStack pt = [] \<Longrightarrow> undo pt = pt"
  by (simp add: undo_def Undo_def)

lemma redo_empty: "redoStack pt = [] \<Longrightarrow> redo pt = pt"
  by (simp add: redo_def Redo_def)

lemma undo_step:
  assumes "undoStack pt = r # us" "\<forall>x\<in>set us. batch_id x \<noteq> batch_id r"
  shows "pieces (undo pt) = splice_pieces (pos r) (new_range r) (old_range r) (pieces pt)"
    and "undoStack (undo pt) = us"
    and "redoStack (undo pt) = inverse_swap r # redoStack pt"
    and "original (undo pt) = original pt" and "modify (undo pt) = modify pt"
  using top_batch_single [OF assms(2)] assms(1)
  by (simp_all add: undo_def Undo_def Let_def revert_def)

lemma redo_step:
  assumes "redoStack pt = r # rs" "\<forall>x\<in>set rs. batch_id x \<noteq> batch_id r"
  shows "pieces (redo pt) = splice_pieces (pos r) (new_range r) (old_range r) (pieces pt)"
    and "redoStack (redo pt) = rs"
    and "undoStack (redo pt) = inverse_swap r # undoStack pt"
    and "original (redo pt) = original pt" and "modify (redo pt) = modify pt"
  using top_batch_single [OF assms(2)] assms(1)
  by (simp_all add: redo_def Redo_def Let_def revert_def)

lemma inverse_swap_fields [simp]:
  "pos (inverse_swap r) = pos r" "old_range (inverse_swap r) = new_range r"
  "new_range (inverse_swap r) = old_range r" "batch_id (inverse_swap r) = batch_id r"
  by (simp_all add: inverse_swap_def)

lemma swap_chain_push_inverse:
  assumes "sits (pos r) (new_range r) ps" "swap_chain ps rs pk"
  shows "swap_chain (splice_pieces (pos r) (new_range r) (old_range r) ps) (inverse_swap r # rs) pk"
  using assms splice_inverse [OF assms(1), of "old_range r"] splice_sits [OF sits_le [OF assms(1)]]
  by simp

lemma stacks_ok_undo:
  assumes "stacks_ok pt p0 pk"
  shows "stacks_ok (undo pt) p0 pk"
proof (cases "undoStack pt")
  case Nil
  with assms show ?thesis by (simp add: undo_empty)
next
  case (Cons r us)
  from assms Cons have d: "\<forall>x\<in>set us. batch_id x \<noteq> batch_id r"
    using distinct_top [of r us "redoStack pt"] by (simp add: stacks_ok_def)
  note u = undo_step [OF Cons d]
  from assms Cons have "sits (pos r) (new_range r) (pieces pt)"
    and c0: "swap_chain (splice_pieces (pos r) (new_range r) (old_range r) (pieces pt)) us p0"
    and ck: "swap_chain (pieces pt) (redoStack pt) pk"
    by (simp_all add: stacks_ok_def)
  from swap_chain_push_inverse [OF this(1) ck] c0 assms Cons show ?thesis
    by (auto simp: stacks_ok_def u)
qed

lemma stacks_ok_redo:
  assumes "stacks_ok pt p0 pk"
  shows "stacks_ok (redo pt) p0 pk"
proof (cases "redoStack pt")
  case Nil
  with assms show ?thesis by (simp add: redo_empty)
next
  case (Cons r rs)
  from assms Cons have d: "\<forall>x\<in>set rs. batch_id x \<noteq> batch_id r"
    using distinct_top [of r rs "[]"] by (simp add: stacks_ok_def)
  note u = redo_step [OF Cons d]
  from assms Cons have "sits (pos r) (new_range r) (pieces pt)"
    and ck: "swap_chain (splice_pieces (pos r) (new_range r) (old_range r) (pieces pt)) rs pk"
    and c0: "swap_chain (pieces pt) (undoStack pt) p0"
    by (simp_all add: stacks_ok_def)
  from swap_chain_push_inverse [OF this(1) c0] ck assms Cons show ?thesis
    by (auto simp: stacks_ok_def u)
qed

lemma undo_lengths:
  assumes "stacks_ok pt p0 pk"
  shows "length (undoStack (undo pt)) = length (undoStack pt) - 1
    \<and> length (redoStack (undo pt)) = length (redoStack pt) + min 1 (length (undoStack pt))
    \<and> original (undo pt) = original pt \<and> modify (undo pt) = modify pt"
proof (cases "undoStack pt")
  case Nil
  then show ?thesis by (simp add: undo_empty)
next
  case (Cons r us)
  from assms Cons have d: "\<forall>x\<in>set us. batch_id x \<noteq> batch_id r"
    using distinct_top [of r us "redoStack pt"] by (simp add: stacks_ok_def)
  from undo_step [OF Cons d] Cons show ?thesis by simp
qed

lemma redo_lengths:
  assumes "stacks_ok pt p0 pk"
  shows "length (redoStack (redo pt)) = length (redoStack pt) - 1
    \<and> length (undoStack (redo pt)) = length (undoStack pt) + min 1 (length (redoStack pt))
    \<and> original (redo pt) = original pt \<and> modify (redo pt) = modify pt"
proof (cases "redoStack pt")
  case Nil
  then show ?thesis by (simp add: redo_empty)
next
  case (Cons r rs)
  from assms Cons have d: "\<forall>x\<in>set rs. batch_id x \<noteq> batch_id r"
    using distinct_top [of r rs "[]"] by (simp add: stacks_ok_def)
  from redo_step [OF Cons d] Cons show ?thesis by simp
qed

lemma undo_funpow:
  assumes "stacks_ok pt p0 pk"
  shows "stacks_ok ((undo ^^ j) pt) p0 pk
    \<and> length (undoStack ((undo ^^ j) pt)) = length (undoStack pt) - j
    \<and> length (redoStack ((undo ^^ j) pt)) = length (redoStack pt) + min j (length (undoStack pt))
    \<and> original ((undo ^^ j) pt) = original pt \<and> modify ((undo ^^ j) pt) = modify pt"
proof (induction j)
  case 0
  with assms show ?case by simp
next
  case (Suc j)
  then have ok: "stacks_ok ((undo ^^ j) pt) p0 pk" by simp
  from stacks_ok_undo [OF ok] undo_lengths [OF ok] Suc show ?case by auto
qed

lemma redo_funpow:
  assumes "stacks_ok pt p0 pk"
  shows "stacks_ok ((redo ^^ j) pt) p0 pk
    \<and> length (redoStack ((redo ^^ j) pt)) = length (redoStack pt) - j
    \<and> length (undoStack ((redo ^^ j) pt)) = length (undoStack pt) + min j (length (redoStack pt))
    \<and> original ((redo ^^ j) pt) = original pt \<and> modify ((redo ^^ j) pt) = modify pt"
proof (induction j)
  case 0
  with assms show ?case by simp
next
  case (Suc j)
  then have ok: "stacks_ok ((redo ^^ j) pt) p0 pk" by simp
  from stacks_ok_redo [OF ok] redo_lengths [OF ok] Suc show ?case by auto
qed

lemma stacks_ok_undone: "stacks_ok pt p0 pk \<Longrightarrow> undoStack pt = [] \<Longrightarrow> pieces pt = p0"
  by (simp add: stacks_ok_def)

lemma stacks_ok_redone: "stacks_ok pt p0 pk \<Longrightarrow> redoStack pt = [] \<Longrightarrow> pieces pt = pk"
  by (simp add: stacks_ok_def)

lemma depth_distinct: "distinct (map batch_id st) \<Longrightarrow> depth st = length st"
  by (simp add: depth_def remdups_adj_distinct)

lemma stacks_ok_depth:
  assumes "stacks_ok pt p0 pk"
  shows "depth (undoStack pt) = length (undoStack pt)"
    and "depth (redoStack pt) = length (redoStack pt)"
  using assms by (simp_all add: stacks_ok_def depth_distinct)

subsection \<open>Sequences of edits on a fresh table\<close>

lemma edits_ok_new: "edits_ok (NewPieceTable init) init"
  by (simp add: edits_ok_def NewPieceTable_def)

lemma edits_ok_Replace:
  assumes "edits_ok pt init"
  shows "edits_ok (snd (Replace mg pt s e t)) init
    \<and> length (undoStack (snd (Replace mg pt s e t))) \<le> Suc (length (undoStack pt))"
proof (cases "fst (Replace mg pt s e t)")
  case False
  then have "Replace mg pt s e t = (False, snd (Replace mg pt s e t))"
    by (simp add: prod_eq_iff)
  from Replace_unchanged [OF this] assms show ?thesis by simp
next
  case True
  then have "Replace mg pt s e t = (True, snd (Replace mg pt s e t))"
    by (simp add: prod_eq_iff)
  from Replace_changed [OF this] obtain r where
    r: "pieces (snd (Replace mg pt s e t))
        = splice_pieces (pos r) (old_range r) (new_range r) (pieces pt)"
      "sits (pos r) (old_range r) (pieces pt)"
      "undoStack (snd (Replace mg pt s e t)) = r # undoStack pt"
      "redoStack (snd (Replace mg pt s e t)) = []"
      "batch_id r = (if batchDepth pt = 0 then currentBatch pt + 1 else currentBatch pt)"
      "currentBatch (snd (Replace mg pt s e t)) = batch_id r"
      "batchDepth (snd (Replace mg pt s e t)) = batchDepth pt"
      "original (snd (Replace mg pt s e t)) = original pt"
    by blast
  have b: "batch_id r = currentBatch pt + 1" using r(5) assms by (simp add: edits_ok_def)
  have "swap_chain (splice_pieces (pos r) (old_range r) (new_range r) (pieces pt)) (r # undoStack pt)
      (pieces (NewPieceTable init))"
    using splice_inverse [OF r(2), of "new_range r"] splice_sits [OF sits_le [OF r(2)]] assms
    by (simp add: edits_ok_def)
  moreover have "batch_id r \<notin> batch_id ` set (undoStack pt)"
    using assms b by (auto simp: edits_ok_def)
  ultimately show ?thesis
    using assms r b by (auto simp: edits_ok_def)
qed

lemma edits_ok_apply:
  assumes "edits_ok pt init"
  shows "edits_ok (apply_edit mg pt ed) init
    \<and> length (undoStack (apply_edit mg pt ed)) \<le> Suc (length (undoStack pt))"
  using edits_ok_Replace [OF assms]
  by (cases ed) (simp_all add: Insert_def Erase_def)

lemma edits_ok_run:
  assumes "edits_ok pt init"
  shows "edits_ok (run_edits mg ops pt) init
    \<and> length (undoStack (run_edits mg ops pt)) \<le> length (undoStack pt) + length ops"
  using assms
proof (induction ops arbitrary: pt)
  case Nil
  then show ?case by (simp add: run_edits_def)
next
  case (Cons ed ops)
  from edits_ok_apply [OF Cons.prems, of mg ed]
  have 1: "edits_ok (apply_edit mg pt ed) init"
    and 2: "length (undoStack (apply_edit mg pt ed)) \<le> Suc (length (undoStack pt))"
    by simp_all
  from Cons.IH [OF 1] 2 show ?case by (simp add: run_edits_def)
qed

lemma content_initial:
  assumes "pieces pt = pieces (NewPieceTable init)" "original pt = init"
  shows "content pt = init"
  using assms by (simp add: content_def NewPieceTable_def piece_bytes_def store_def)

lemma content_cong:
  assumes "pieces pt = pieces pt'" "original pt = original pt'" "modify pt = modify pt'"
  shows "content pt = content pt'"
proof -
  have "piece_bytes pt = piece_bytes pt'"
    using assms by (auto simp: piece_bytes_def store_def fun_eq_iff split: source.splits)
  with assms show ?thesis by (simp add: content_def)
qed

text \<open>
  C1. For every sequence \<open>S\<close> of insert, erase and replace operations on a freshly
  constructed piece table (and every choice of which appended texts are merged into the
  rightmost piece): \<open>|S|\<close> calls of undo restore the initial content byte for byte and
  leave the undo stack empty; \<open>|S|\<close> calls of redo after them restore the content that
  \<open>S\<close> produced; and the \<open>j\<close>-th undo moves one batch from the undo stack to the redo
  stack as long as there is one, each redo moving it back.
\<close>

theorem undo_redo_roundtrip:
  fixes mg :: "byte list \<Rightarrow> bool" and S :: "edit list" and init :: "byte list"
  defines "pt \<equiv> run_edits mg S (NewPieceTable init)"
  defines "u \<equiv> (undo ^^ length S) pt"
  shows "content u = init \<and> depth (undoStack u) = 0
    \<and> content ((redo ^^ length S) u) = content pt
    \<and> depth (undoStack ((undo ^^ j) pt)) = depth (undoStack pt) - j
    \<and> depth (redoStack ((undo ^^ j) pt)) = min j (depth (undoStack pt))
    \<and> depth (redoStack ((redo ^^ j) u)) = depth (undoStack pt) - j
    \<and> depth (undoStack ((redo ^^ j) u)) = min j (depth (undoStack pt))"
proof -
  have ok: "edits_ok pt init"
    and len: "length (undoStack pt) \<le> length S"
    using edits_ok_run [OF edits_ok_new, of mg S init] by (simp_all add: pt_def NewPieceTable_def)
  have s: "stacks_ok pt (pieces (NewPieceTable init)) (pieces pt)"
    using ok by (simp add: stacks_ok_def edits_ok_def)
  note un = undo_funpow [OF s]
  have su: "stacks_ok u (pieces (NewPieceTable init)) (pieces pt)"
    and lu: "undoStack u = []" "length (redoStack u) = length (undoStack pt)"
    and stu: "original u = init" "modify u = modify pt"
    using un [of "length S"] len ok by (simp_all add: u_def edits_ok_def)
  note re = redo_funpow [OF su]
  have "pieces u = pieces (NewPieceTable init)"
    using su lu(1) by (rule stacks_ok_undone)
  then have 1: "content u = init" using stu(1) by (rule content_initial)
  have 2: "depth (undoStack u) = 0" using lu(1) by (simp add: depth_def)
  have "redoStack ((redo ^^ length S) u) = []"
    using re [of "length S"] lu(2) len by simp
  with re [of "length S"] have "pieces ((redo ^^ length S) u) = pieces pt"
    by (blast intro: stacks_ok_redone)
  then have 3: "content ((redo ^^ length S) u) = content pt"
    using re [of "length S"] stu ok by (intro content_cong) (simp_all add: edits_ok_def)
  have d: "depth (undoStack pt) = length (undoStack pt)"
    using s by (rule stacks_ok_depth)
  have okj: "stacks_ok ((undo ^^ j) pt) (pieces (NewPieceTable init)) (pieces pt)"
    using un [of j] by simp
  have 4: "depth (undoStack ((undo ^^ j) pt)) = depth (undoStack pt) - j"
    and 5: "depth (redoStack ((undo ^^ j) pt)) = min j (depth (undoStack pt))"
    using un [of j] stacks_ok_depth [OF okj] d ok
    by (simp_all add: edits_ok_def)
  have okr: "stacks_ok ((redo ^^ j) u) (pieces (NewPieceTable init)) (pieces pt)"
    using re [of j] by simp
  have 6: "depth (redoStack ((redo ^^ j) u)) = depth (undoStack pt) - j"
    and 7: "depth (undoStack ((redo ^^ j) u)) = min j (depth (undoStack pt))"
    using re [of j] stacks_ok_depth [OF okr] d lu
    by simp_all
  from 1 2 3 4 5 6 7 show ?thesis by simp
qed

subsection \<open>Markers under edits\<close>

lemma Replace_markers:
  "markers (snd (Replace mg pt s e t)) =
     (let s' = min (nat s) (seqLength pt); e' = max s' (min (nat e) (seqLength pt))
      in if s' = e' \<and> t = [] then markers pt
         else relocate_all (int s') (int e') (int (RuneCount t)) (markers pt))"
  by (simp add: Replace_def Let_def split_beta)

lemma RuneCount_Nil_iff: "RuneCount t = 0 \<longleftrightarrow> t = []"
  by (cases t) simp_all

lemma Insert_marker:
  assumes "0 \<le> s" "s \<le> int (seqLength pt)" "i < length (markers pt)" "alive (markers pt ! i)"
  shows "markers (snd (Insert mg pt s t)) ! i = relocate s s (int (RuneCount t)) (markers pt ! i)"
proof (cases "t = []")
  case True
  then show ?thesis
    using assms by (simp add: Insert_def Replace_markers Let_def relocate_def)
next
  case False
  have "min (nat s) (seqLength pt) = nat s" using assms by linarith
  with False assms show ?thesis
    by (simp add: Insert_def Replace_markers Let_def relocate_all_def)
qed

lemma Erase_marker:
  assumes "0 \<le> s" "s \<le> e" "e \<le> int (seqLength pt)" "i < length (markers pt)"
    "alive (markers pt ! i)"
  shows "markers (snd (Erase mg pt s e)) ! i = relocate s e 0 (markers pt ! i)"
proof (cases "s = e")
  case True
  have "min (nat e) (seqLength pt) = nat e" using assms by linarith
  with True show ?thesis
    using assms by (auto simp: Erase_def Replace_markers Let_def relocate_def)
next
  case False
  have "min (nat s) (seqLength pt) = nat s" "min (nat e) (seqLength pt) = nat e"
    "max (nat s) (nat e) = nat e" "nat s \<noteq> nat e"
    using assms False by linarith+
  with assms show ?thesis
    by (simp add: Erase_def Replace_markers Let_def relocate_all_def)
qed

text \<open>
  C2. A pure insertion of \<open>n\<close> runes at the rune position \<open>s\<close> leaves a live marker
  before \<open>s\<close> where it is, moves one beyond \<open>s\<close> by \<open>n\<close>, and moves one at \<open>s\<close> by
  \<open>n\<close> if its bias is forward and leaves it at \<open>s\<close> if its bias is backward.
\<close>

theorem marker_on_insert:
  assumes "0 \<le> s" "s \<le> int (seqLength pt)" "i < length (markers pt)" "alive (markers pt ! i)"
  shows "(offset_m (markers pt ! i) < s \<longrightarrow>
            offset_m (markers (snd (Insert mg pt s t)) ! i) = offset_m (markers pt ! i))
    \<and> (offset_m (markers pt ! i) > s \<longrightarrow>
            offset_m (markers (snd (Insert mg pt s t)) ! i)
              = offset_m (markers pt ! i) + int (RuneCount t))
    \<and> (offset_m (markers pt ! i) = s \<and> bias (markers pt ! i) = BiasForward \<longrightarrow>
            offset_m (markers (snd (Insert mg pt s t)) ! i) = s + int (RuneCount t))
    \<and> (offset_m (markers pt ! i) = s \<and> bias (markers pt ! i) = BiasBackward \<longrightarrow>
            offset_m (markers (snd (Insert mg pt s t)) ! i) = s)"
  unfolding Insert_marker [OF assms]
  by (simp add: relocate_def Let_def)

text \<open>
  C3. A pure deletion of the rune range \<open>[s, e)\<close> moves a live marker beyond \<open>e\<close>
  back by \<open>e - s\<close>, collapses one from \<open>s\<close> to \<open>e\<close> to \<open>s\<close>, and leaves one before
  \<open>s\<close> where it is.
\<close>

theorem marker_on_erase:
  assumes "0 \<le> s" "s \<le> e" "e \<le> int (seqLength pt)" "i < length (markers pt)"
    "alive (markers pt ! i)"
  shows "(offset_m (markers pt ! i) > e \<longrightarrow>
            offset_m (markers (snd (Erase mg pt s e)) ! i) = offset_m (markers pt ! i) - (e - s))
    \<and> (s \<le> offset_m (markers pt ! i) \<and> offset_m (markers pt ! i) \<le> e \<longrightarrow>
            offset_m (markers (snd (Erase mg pt s e)) ! i) = s)
    \<and> (offset_m (markers pt ! i) < s \<longrightarrow>
            offset_m (markers (snd (Erase mg pt s e)) ! i) = offset_m (markers pt ! i))"
  unfolding Erase_marker [OF assms]
  using assms(2) by (auto simp: relocate_def Let_def)

subsection \<open>Instances\<close>

theorem undo_redo_roundtrip_witness:
  "content (run_edits single_rune [InsertOp 0 (bytes ''Hello, ''), InsertOp 7 (bytes ''world'')]
       (NewPieceTable [])) = bytes ''Hello, world''
   \<and> content (undo (undo (run_edits single_rune
         [InsertOp 0 (bytes ''Hello, ''), InsertOp 7 (bytes ''world'')] (NewPieceTable [])))) = []
   \<and> depth (undoStack (undo (undo (run_edits single_rune
         [InsertOp 0 (bytes ''Hello, ''), InsertOp 7 (bytes ''world'')] (NewPieceTable []))))) = 0
   \<and> content (redo (redo (undo (undo (run_edits single_rune
         [InsertOp 0 (bytes ''Hello, ''), InsertOp 7 (bytes ''world'')] (NewPieceTable []))))))
       = bytes ''Hello, world''"
proof -
  have a: "content (run_edits single_rune
       [InsertOp 0 (bytes ''Hello, ''), InsertOp 7 (bytes ''world'')] (NewPieceTable []))
     = bytes ''Hello, world''"
    by code_simp
  from undo_redo_roundtrip
    [where mg = single_rune
       and S = "[InsertOp 0 (bytes ''Hello, ''), InsertOp 7 (bytes ''world'')]"
       and init = "[]" and j = 0] a
  show ?thesis by (simp add: numeral_2_eq_2)
qed

theorem marker_on_insert_witness:
  "offset_m (markers (snd (Insert single_rune
       (snd (CreateMarker (NewPieceTable (bytes ''hello,world'')) 6 BiasForward)) 6
       (bytes ''golang''))) ! 0) = 12"
proof -
  have h: "(0::int) \<le> 6"
    "6 \<le> int (seqLength (snd (CreateMarker (NewPieceTable (bytes ''hello,world'')) 6 BiasForward)))"
    "0 < length (markers (snd (CreateMarker (NewPieceTable (bytes ''hello,world'')) 6 BiasForward)))"
    "alive (markers (snd (CreateMarker (NewPieceTable (bytes ''hello,world'')) 6 BiasForward)) ! 0)"
    by code_simp+
  have m: "offset_m (markers (snd (CreateMarker (NewPieceTable (bytes ''hello,world'')) 6 BiasForward)) ! 0) = 6"
    "bias (markers (snd (CreateMarker (NewPieceTable (bytes ''hello,world'')) 6 BiasForward)) ! 0)
       = BiasForward"
    "int (RuneCount (bytes ''golang'')) = 6"
    by code_simp+
  from marker_on_insert [OF h, of single_rune "bytes ''golang''"] m show ?thesis by simp
qed

theorem marker_on_erase_witness:
  "offset_m (markers (snd (Erase single_rune
       (snd (CreateMarker
          (edits (NewPieceTable [])
             [(0, 0, ''Hello,''), (6, 6, ''golang''), (12, 12, '' world'')])
          14 BiasBackward)) 5 13)) ! 0) = 6"
proof -
  have h: "(0::int) \<le> 5" "(5::int) \<le> 13"
    "13 \<le> int (seqLength (snd (CreateMarker
          (edits (NewPieceTable [])
             [(0, 0, ''Hello,''), (6, 6, ''golang''), (12, 12, '' world'')])
          14 BiasBackward)))"
    "0 < length (markers (snd (CreateMarker
          (edits (NewPieceTable [])
             [(0, 0, ''Hello,''), (6, 6, ''golang''), (12, 12, '' world'')])
          14 BiasBackward)))"
    "alive (markers (snd (CreateMarker
          (edits (NewPieceTable [])
             [(0, 0, ''Hello,''), (6, 6, ''golang''), (12, 12, '' world'')])
          14 BiasBackward)) ! 0)"
    by code_simp+
  have m: "offset_m (markers (snd (CreateMarker
          (edits (NewPieceTable [])
             [(0, 0, ''Hello,''), (6, 6, ''golang''), (12, 12, '' world'')])
          14 BiasBackward)) ! 0) = 14"
    by code_simp
  from marker_on_erase [OF h, of single_rune] m show ?thesis by simp
qed

end
